theory Spec2Isabelle
  imports Complex_Main "HOL-Library.Sublist" "HOL-Library.Multiset"
begin

section \<open>Rightmove property scraper: extraction and normalisation pipeline\<close>

text \<open>
  A shallow embedding of \<^verbatim>\<open>src/main.js\<close>. Conventions used throughout:

  \<^item> A JavaScript string is a list of UTF-16 code units. The model covers the code units
    \<open>0x00\<close> to \<open>0xFF\<close> (one \<^typ>\<open>char\<close> each), which contain every character the
    regular expressions of the program mention, the pound sign \<open>0xA3\<close> and the
    no-break space \<open>0xA0\<close>.
  \<^item> \<open>null\<close> and \<open>undefined\<close> are both \<^term>\<open>None\<close> wherever the program only tests
    \<^verbatim>\<open>!x\<close>, \<^verbatim>\<open>x === null || x === undefined\<close> or \<^verbatim>\<open>x ?? y\<close>; where it tells them apart
    (the coercion \<^verbatim>\<open>Number(x)\<close>) they are separate constructors.
  \<^item> A JavaScript number is a \<open>jsnum\<close>: \<open>NaN\<close>, the two infinities, or a finite value kept
    as an exact rational. Overflow to infinity is modelled; the rounding of a finite
    value to the nearest double is not.
  \<^item> An exception is a value \<open>Inl e\<close> of a sum type.
\<close>

subsection \<open>Characters and strings\<close>

text \<open>The class \<^verbatim>\<open>\s\<close> of a JavaScript regular expression, which is also what
  \<^verbatim>\<open>String.prototype.trim\<close> removes: tab, line feed, vertical tab, form feed, carriage
  return, space and no-break space.\<close>

definition is_space :: "char \<Rightarrow> bool" where
  "is_space c = (c \<in> set [CHR 0x09, CHR 0x0A, CHR 0x0B, CHR 0x0C, CHR 0x0D, CHR 0x20, CHR 0xA0])"

text \<open>The class \<^verbatim>\<open>\d\<close>.\<close>

definition is_digit :: "char \<Rightarrow> bool" where
  "is_digit c = (let n = (of_char c :: nat) in 48 \<le> n \<and> n \<le> 57)"

definition is_upper :: "char \<Rightarrow> bool" where
  "is_upper c = (let n = (of_char c :: nat) in 65 \<le> n \<and> n \<le> 90)"

definition is_lower :: "char \<Rightarrow> bool" where
  "is_lower c = (let n = (of_char c :: nat) in 97 \<le> n \<and> n \<le> 122)"

text \<open>The class \<^verbatim>\<open>\w\<close>; a word boundary \<^verbatim>\<open>\b\<close> lies between a character of the class
  and a character outside it (or an end of the text).\<close>

definition is_word :: "char \<Rightarrow> bool" where
  "is_word c = (is_digit c \<or> is_upper c \<or> is_lower c \<or> c = CHR ''_'')"

text \<open>Case folding of the flag \<^verbatim>\<open>/i\<close>: without the flag \<^verbatim>\<open>/u\<close> a character above
  \<open>0x7F\<close> is never identified with an ASCII letter, so a pattern of ASCII letters matches
  case-insensitively exactly when it matches the text with \<open>A\<close> to \<open>Z\<close> lowered.\<close>

definition ascii_lower :: "char \<Rightarrow> char" where
  "ascii_lower c = (if is_upper c then char_of (of_char c + (32::nat)) else c)"

text \<open>\<^verbatim>\<open>String.prototype.toLowerCase\<close> on the modelled code units: \<open>A\<close> to \<open>Z\<close>, and the
  accented capitals \<open>0xC0\<close> to \<open>0xDE\<close> without the multiplication sign \<open>0xD7\<close>.\<close>

definition to_lower_char :: "char \<Rightarrow> char" where
  "to_lower_char c =
     (let n = (of_char c :: nat)
      in if (65 \<le> n \<and> n \<le> 90) \<or> (192 \<le> n \<and> n \<le> 222 \<and> n \<noteq> 215)
         then char_of (n + 32) else c)"

definition toLowerCase :: "string \<Rightarrow> string" where
  "toLowerCase s = map to_lower_char s"

text \<open>\<^verbatim>\<open>haystack.includes(needle)\<close> and \<^verbatim>\<open>s.startsWith(p)\<close>.\<close>

fun str_includes :: "string \<Rightarrow> string \<Rightarrow> bool" where
  "str_includes needle [] = (needle = [])"
| "str_includes needle (c # cs) = (prefix needle (c # cs) \<or> str_includes needle cs)"

definition startsWith :: "string \<Rightarrow> string \<Rightarrow> bool" where
  "startsWith s p = prefix p s"

subsection \<open>Numbers\<close>

datatype jsnum = NaN | Fin rat | PInf | NInf

text \<open>A decimal value becomes a double: at or beyond \<open>2^1024 - 2^970\<close> it rounds to an
  infinity, at or below \<open>2^-1075\<close> in magnitude it rounds to zero.\<close>

definition to_number :: "rat \<Rightarrow> jsnum" where
  "to_number r =
     (if \<bar>r\<bar> \<le> 1 / 2 ^ 1075 then Fin 0
      else if r \<ge> 2 ^ 1024 - 2 ^ 970 then PInf
      else if r \<le> - (2 ^ 1024 - 2 ^ 970) then NInf
      else Fin r)"


text \<open>\<^verbatim>\<open>Number.isFinite\<close> and the truthiness of a number (\<open>0\<close> and \<open>NaN\<close> are falsy).\<close>

fun isFinite :: "jsnum \<Rightarrow> bool" where
  "isFinite (Fin _) = True"
| "isFinite _ = False"

fun num_truthy :: "jsnum \<Rightarrow> bool" where
  "num_truthy NaN = False"
| "num_truthy (Fin r) = (r \<noteq> 0)"
| "num_truthy _ = True"

text \<open>\<^verbatim>\<open>Math.max\<close> and \<^verbatim>\<open>Math.min\<close> of two numbers: \<open>NaN\<close> if either is.\<close>

fun js_le :: "jsnum \<Rightarrow> jsnum \<Rightarrow> bool" where
  "js_le NaN _ = False"
| "js_le _ NaN = False"
| "js_le NInf _ = True"
| "js_le _ PInf = True"
| "js_le (Fin a) (Fin b) = (a \<le> b)"
| "js_le _ _ = False"

definition Math_max :: "jsnum \<Rightarrow> jsnum \<Rightarrow> jsnum" where
  "Math_max a b = (if a = NaN \<or> b = NaN then NaN else if js_le a b then b else a)"


text \<open>The value of a run of decimal digits, and of a token \<open>digits\<close> or \<open>digits.digits\<close>
  as \<^verbatim>\<open>parseFloat\<close> reads it.\<close>

definition digit_val :: "char \<Rightarrow> nat" where
  "digit_val c = of_char c - 48"

definition digits_value :: "string \<Rightarrow> nat" where
  "digits_value ds = foldl (\<lambda>a c. 10 * a + digit_val c) 0 ds"


subsection \<open>Constants\<close>

definition BASE_URL :: string where
  "BASE_URL = ''https://www.rightmove.co.uk''"

definition DEFAULT_PROPERTIES_PER_PAGE :: nat where
  "DEFAULT_PROPERTIES_PER_PAGE = 24"

definition DATASET_BATCH_SIZE :: nat where
  "DATASET_BATCH_SIZE = 15"

subsection \<open>cleanText\<close>

text \<open>\<^verbatim>\<open>replace(/\s+/g, ' ')\<close>: every maximal run of white space becomes one space.\<close>

function collapse_ws :: "string \<Rightarrow> string" where
  "collapse_ws [] = []"
| "collapse_ws (c # cs) =
     (if is_space c then CHR 0x20 # collapse_ws (dropWhile is_space cs)
      else c # collapse_ws cs)"
  by pat_completeness auto
termination
  by (relation "measure length") (auto simp: less_Suc_eq_le length_dropWhile_le)

definition trim :: "string \<Rightarrow> string" where
  "trim s = rev (dropWhile is_space (rev (dropWhile is_space s)))"

text \<open>\<^verbatim>\<open>cleanText\<close> (lines 113-117); the argument is a string, \<open>null\<close> or \<open>undefined\<close>.\<close>

definition cleanText :: "string option \<Rightarrow> string option" where
  "cleanText text =
     (case text of
        None \<Rightarrow> None
      | Some t \<Rightarrow> (let cleaned = trim (collapse_ws t)
                  in if length cleaned > 0 then Some cleaned else None))"

text \<open>\<^verbatim>\<open>Number(s)\<close> on a string: white space is trimmed; the empty string is \<open>0\<close>; a
  binary, octal or hexadecimal integer literal; or an optionally signed decimal literal
  (\<open>Infinity\<close>, digits with an optional fraction and exponent); anything else is \<open>NaN\<close>.\<close>

definition radix_digit :: "nat \<Rightarrow> char \<Rightarrow> nat option" where
  "radix_digit b c =
     (let n = (of_char c :: nat);
          v = (if 48 \<le> n \<and> n \<le> 57 then Some (n - 48)
               else if 97 \<le> n \<and> n \<le> 102 then Some (n - 87)
               else if 65 \<le> n \<and> n \<le> 70 then Some (n - 55)
               else None)
      in case v of None \<Rightarrow> None | Some d \<Rightarrow> if d < b then Some d else None)"

fun radix_value :: "nat \<Rightarrow> nat \<Rightarrow> string \<Rightarrow> nat option" where
  "radix_value b acc [] = Some acc"
| "radix_value b acc (c # cs) =
     (case radix_digit b c of None \<Rightarrow> None | Some d \<Rightarrow> radix_value b (b * acc + d) cs)"

definition radix_literal :: "nat \<Rightarrow> string \<Rightarrow> jsnum" where
  "radix_literal b ds =
     (if ds = [] then NaN
      else case radix_value b 0 ds of None \<Rightarrow> NaN | Some n \<Rightarrow> to_number (of_nat n))"

definition exponent_part :: "string \<Rightarrow> int option" where
  "exponent_part s =
     (case s of
        [] \<Rightarrow> Some 0
      | e # r \<Rightarrow>
          if e = CHR ''e'' \<or> e = CHR ''E'' then
            (let neg = (r \<noteq> [] \<and> hd r = CHR ''-'');
                 ds = (if r \<noteq> [] \<and> (hd r = CHR ''-'' \<or> hd r = CHR ''+'') then tl r else r)
             in if ds \<noteq> [] \<and> (\<forall>c\<in>set ds. is_digit c)
                then Some (if neg then - int (digits_value ds) else int (digits_value ds))
                else None)
          else None)"

definition unsigned_decimal :: "string \<Rightarrow> rat option" where
  "unsigned_decimal s =
     (let ip = takeWhile is_digit s;
          r1 = dropWhile is_digit s;
          dot = (r1 \<noteq> [] \<and> hd r1 = CHR ''.'');
          fp = (if dot then takeWhile is_digit (tl r1) else []);
          r2 = (if dot then dropWhile is_digit (tl r1) else r1)
      in if ip = [] \<and> fp = [] then None
         else case exponent_part r2 of
                None \<Rightarrow> None
              | Some e \<Rightarrow>
                  (let m = of_nat (digits_value ip) + of_nat (digits_value fp) / 10 ^ length fp
                   in Some (if e \<ge> 0 then m * 10 ^ nat e else m / 10 ^ nat (- e))))"

definition signed_decimal :: "bool \<Rightarrow> string \<Rightarrow> jsnum" where
  "signed_decimal neg s =
     (if s = ''Infinity'' then (if neg then NInf else PInf)
      else case unsigned_decimal s of
             None \<Rightarrow> NaN
           | Some r \<Rightarrow> to_number (if neg then - r else r))"

definition StringToNumber :: "string \<Rightarrow> jsnum" where
  "StringToNumber s =
     (let t = trim s
      in if t = [] then Fin 0
         else if prefix ''0x'' t \<or> prefix ''0X'' t then radix_literal 16 (drop 2 t)
         else if prefix ''0o'' t \<or> prefix ''0O'' t then radix_literal 8 (drop 2 t)
         else if prefix ''0b'' t \<or> prefix ''0B'' t then radix_literal 2 (drop 2 t)
         else case t of
                c # r \<Rightarrow>
                  if c = CHR ''-'' then signed_decimal True r
                  else if c = CHR ''+'' then signed_decimal False r
                  else signed_decimal False t
              | [] \<Rightarrow> Fin 0)"

subsection \<open>ensureAbsoluteUrl\<close>

text \<open>Lines 134-139; \<^verbatim>\<open>!url\<close> holds for \<open>null\<close>, \<open>undefined\<close> and the empty string.\<close>

definition ensureAbsoluteUrl :: "string option \<Rightarrow> string option" where
  "ensureAbsoluteUrl url =
     (case url of
        None \<Rightarrow> None
      | Some u \<Rightarrow>
          if u = [] then None
          else if startsWith u ''http'' then Some u
          else if startsWith u ''//'' then Some (''https:'' @ u)
          else Some (BASE_URL @ (if startsWith u ''/'' then [] else ''/'') @ u))"

subsection \<open>parsePrice\<close>

text \<open>The \<open>amount\<close> of a price is a number in the records the program builds itself; the
  linked-data pass stores whatever JSON value the page gives, so a string is possible.\<close>

datatype amount_val = ANull | AUndefined | ANum jsnum | AStr string

record price =
  amount :: amount_val
  currency :: "string option"
  displayPrice :: "string option"









subsection \<open>inferPropertyType\<close>

text \<open>The patterns of \<^verbatim>\<open>PROPERTY_TYPE_PATTERNS\<close> (lines 72-84), all with the flag
  \<^verbatim>\<open>/i\<close>: each test lowers the ASCII capitals of the text and matches a lower-case
  pattern. \<open>anywhere\<close> tries a pattern at every position.\<close>

fun anywhere :: "(string \<Rightarrow> bool) \<Rightarrow> string \<Rightarrow> bool" where
  "anywhere P [] = P []"
| "anywhere P (c # cs) = (P (c # cs) \<or> anywhere P cs)"

text \<open>\<^verbatim>\<open>/semi[-\s]?detached/i\<close>.\<close>

definition semi_detached_here :: "string \<Rightarrow> bool" where
  "semi_detached_here s =
     (prefix ''semi'' s \<and>
      (let r = drop 4 s
       in prefix ''detached'' r \<or>
          (case r of [] \<Rightarrow> False
           | c # r' \<Rightarrow> (c = CHR ''-'' \<or> is_space c) \<and> prefix ''detached'' r')))"

definition re_semi_detached :: "string \<Rightarrow> bool" where
  "re_semi_detached t = anywhere semi_detached_here (map ascii_lower t)"

text \<open>\<^verbatim>\<open>/\bword\b/i\<close> for a word of letters: the word, with no word character before it
  and none after it.\<close>

fun word_scan :: "string \<Rightarrow> char option \<Rightarrow> string \<Rightarrow> bool" where
  "word_scan w prev [] = False"
| "word_scan w prev (c # cs) =
     (((case prev of None \<Rightarrow> True | Some p \<Rightarrow> \<not> is_word p) \<and>
       prefix w (c # cs) \<and>
       (case drop (length w) (c # cs) of [] \<Rightarrow> True | n # _ \<Rightarrow> \<not> is_word n))
      \<or> word_scan w (Some c) cs)"

definition re_word :: "string \<Rightarrow> string \<Rightarrow> bool" where
  "re_word w t = word_scan w None (map ascii_lower t)"

definition PROPERTY_TYPE_PATTERNS :: "((string \<Rightarrow> bool) \<times> string) list" where
  "PROPERTY_TYPE_PATTERNS =
     [(re_semi_detached, ''Semi-Detached''),
      (re_word ''detached'', ''Detached''),
      (re_word ''terraced'', ''Terraced''),
      (re_word ''bungalow'', ''Bungalow''),
      (re_word ''maisonette'', ''Maisonette''),
      (re_word ''apartment'', ''Apartment''),
      (re_word ''flat'', ''Flat''),
      (re_word ''studio'', ''Studio''),
      (re_word ''duplex'', ''Duplex''),
      (re_word ''penthouse'', ''Penthouse''),
      (re_word ''house'', ''House'')]"

text \<open>\<^verbatim>\<open>inferPropertyType\<close> (lines 166-172): the loop returns at the first pattern that
  matches.\<close>

fun first_match :: "((string \<Rightarrow> bool) \<times> string) list \<Rightarrow> string \<Rightarrow> string option" where
  "first_match [] t = None"
| "first_match ((re, v) # ps) t = (if re t then Some v else first_match ps t)"

definition inferPropertyType :: "string option \<Rightarrow> string option" where
  "inferPropertyType text =
     (case text of
        None \<Rightarrow> None
      | Some t \<Rightarrow> if t = [] then None else first_match PROPERTY_TYPE_PATTERNS t)"

subsection \<open>Run limits\<close>






subsection \<open>Objects, arrays and the listing record\<close>

text \<open>A plain object with string keys is the list of its entries in the order
  \<^verbatim>\<open>Object.entries\<close> reports them: array-index keys (canonical decimal numerals below
  \<open>2^32 - 1\<close>) in ascending order first, then the other keys in the order of their creation.
  \<open>obj_put\<close> is the assignment \<^verbatim>\<open>o[k] = v\<close>.\<close>

type_synonym 'v obj = "(string \<times> 'v) list"

definition is_array_index :: "string \<Rightarrow> bool" where
  "is_array_index k =
     (k \<noteq> [] \<and> (\<forall>c\<in>set k. is_digit c) \<and> (k = ''0'' \<or> hd k \<noteq> CHR ''0'') \<and>
      digits_value k < 2 ^ 32 - 1)"

fun insert_index :: "string \<Rightarrow> 'v \<Rightarrow> 'v obj \<Rightarrow> 'v obj" where
  "insert_index k v [] = [(k, v)]"
| "insert_index k v ((k', v') # r) =
     (if is_array_index k' \<and> digits_value k' < digits_value k
      then (k', v') # insert_index k v r
      else (k, v) # (k', v') # r)"

definition obj_put :: "'v obj \<Rightarrow> string \<Rightarrow> 'v \<Rightarrow> 'v obj" where
  "obj_put ob k v =
     (if k \<in> fst ` set ob then map (\<lambda>(k', v'). if k' = k then (k', v) else (k', v')) ob
      else if is_array_index k then insert_index k v ob
      else ob @ [(k, v)])"

text \<open>\<^verbatim>\<open>{ ...a, ...b }\<close>: the entries of \<open>a\<close>, then those of \<open>b\<close>, assigned to a new object.\<close>

definition obj_assign :: "'v obj \<Rightarrow> 'v obj \<Rightarrow> 'v obj" where
  "obj_assign target source = foldl (\<lambda>ob (k, v). obj_put ob k v) target source"

definition obj_spread2 :: "'v obj \<Rightarrow> 'v obj \<Rightarrow> 'v obj" where
  "obj_spread2 a b = obj_assign (obj_assign [] a) b"

text \<open>An element of one of the arrays \<open>images\<close>, \<open>floorplans\<close>, \<open>keyFeatures\<close> and
  \<open>features\<close>: a string; a falsy value that is not a string (\<open>null\<close>, \<open>undefined\<close>, \<open>0\<close>,
  \<open>false\<close>); or any other value (an object, a non-zero number), of which the program
  only ever takes \<^verbatim>\<open>JSON.stringify\<close>, the text it is carried as.\<close>

datatype item = Str string | Falsy | Other string

datatype error = TypeError

record property =
  propertyId :: "string option"
  url :: "string option"
  address :: "string option"
  title :: "string option"
  description :: "string option"
  propertyType :: "string option"
  bedrooms :: "jsnum option"
  bathrooms :: "jsnum option"
  price :: "price option"
  card_image :: "string option"
  images :: "item list option"
  floorplans :: "item list option"
  keyFeatures :: "item list option"
  features :: "item list option"
  agent :: "string option"
  agentDetails :: "string option obj option"
  details :: "string obj option"
  isNewHome :: bool
  extractionMethod :: "string option"
  scrapedAt :: "string option"

text \<open>The empty object \<^verbatim>\<open>{}\<close> read as a listing record.\<close>

definition empty_property :: property where
  "empty_property =
     \<lparr> propertyId = None, url = None, address = None, title = None, description = None,
       propertyType = None, bedrooms = None, bathrooms = None, price = None,
       card_image = None, images = None, floorplans = None, keyFeatures = None,
       features = None, agent = None, agentDetails = None, details = None,
       isNewHome = False, extractionMethod = None, scrapedAt = None \<rparr>"

subsection \<open>uniqueArray\<close>

text \<open>Lines 119-132. \<open>seen\<close> is the set of keys: the cleaned text of a string, the
  \<^verbatim>\<open>JSON.stringify\<close> text of any other value.\<close>

fun unique_loop :: "string set \<Rightarrow> item list \<Rightarrow> item list" where
  "unique_loop seen [] = []"
| "unique_loop seen (Falsy # rest) = unique_loop seen rest"
| "unique_loop seen (Str s # rest) =
     (if s = [] then unique_loop seen rest
      else case cleanText (Some s) of
             None \<Rightarrow> unique_loop seen rest
           | Some v \<Rightarrow>
               if v \<in> seen then unique_loop seen rest
               else Str v # unique_loop (insert v seen) rest)"
| "unique_loop seen (Other j # rest) =
     (if j \<in> seen then unique_loop seen rest
      else Other j # unique_loop (insert j seen) rest)"

definition uniqueArray :: "item list option \<Rightarrow> item list" where
  "uniqueArray items = unique_loop {} (case items of None \<Rightarrow> [] | Some xs \<Rightarrow> xs)"

subsection \<open>mergePropertyData\<close>

text \<open>The helper \<open>setIfMissing\<close> (lines 508-513) on a field that holds a string, and on a
  field that holds a number or an object (which is never \<^verbatim>\<open>''\<close>).\<close>

definition setIfMissing_str :: "string option \<Rightarrow> string option \<Rightarrow> string option" where
  "setIfMissing_str cur v =
     (if v = None then cur else if cur = None \<or> cur = Some [] then v else cur)"

definition setIfMissing_val :: "'a option \<Rightarrow> 'a option \<Rightarrow> 'a option" where
  "setIfMissing_val cur v = (if v = None then cur else if cur = None then v else cur)"

text \<open>Truthiness of \<open>price.amount\<close> and of a string or \<open>null\<close>.\<close>

fun amount_truthy :: "amount_val \<Rightarrow> bool" where
  "amount_truthy ANull = False"
| "amount_truthy AUndefined = False"
| "amount_truthy (ANum n) = num_truthy n"
| "amount_truthy (AStr s) = (s \<noteq> [])"

definition str_truthy :: "string option \<Rightarrow> bool" where
  "str_truthy x = (x \<noteq> None \<and> x \<noteq> Some [])"

text \<open>Lines 524-526: \<^verbatim>\<open>!merged.price || (!merged.price.amount && !merged.price.displayPrice)\<close>.\<close>

definition price_missing :: "price option \<Rightarrow> bool" where
  "price_missing p =
     (case p of None \<Rightarrow> True
      | Some q \<Rightarrow> \<not> amount_truthy (amount q) \<and> \<not> str_truthy (displayPrice q))"

definition merge_list :: "item list option \<Rightarrow> item list option \<Rightarrow> item list option" where
  "merge_list cur extra =
     (case extra of
        None \<Rightarrow> cur
      | Some ys \<Rightarrow> Some (uniqueArray (Some ((case cur of None \<Rightarrow> [] | Some xs \<Rightarrow> xs) @ ys))))"

text \<open>\<^verbatim>\<open>mergePropertyData\<close> (lines 505-545); \<open>base\<close> is the accumulator.\<close>

definition mergePropertyData :: "property \<Rightarrow> property option \<Rightarrow> property" where
  "mergePropertyData base extra' =
     (case extra' of
        None \<Rightarrow> base
      | Some extra \<Rightarrow>
          base
          \<lparr> address := setIfMissing_str (address base) (address extra),
            title := setIfMissing_str (title base) (title extra),
            description := setIfMissing_str (description base) (description extra),
            propertyType := setIfMissing_str (propertyType base) (propertyType extra),
            bedrooms := setIfMissing_val (bedrooms base) (bedrooms extra),
            bathrooms := setIfMissing_val (bathrooms base) (bathrooms extra),
            agent := setIfMissing_str (agent base) (agent extra),
            agentDetails := setIfMissing_val (agentDetails base) (agentDetails extra),
            price := (if price extra \<noteq> None \<and> price_missing (price base)
                      then price extra else price base),
            images := merge_list (images base) (images extra),
            floorplans := merge_list (floorplans base) (floorplans extra),
            keyFeatures := merge_list (keyFeatures base) (keyFeatures extra),
            details := (case details extra of
                          None \<Rightarrow> details base
                        | Some ed \<Rightarrow>
                            Some (obj_spread2 ed (case details base of None \<Rightarrow> [] | Some bd \<Rightarrow> bd)))
          \<rparr>)"

subsection \<open>normalizeProperty\<close>

text \<open>\<^verbatim>\<open>Number(price.amount)\<close>.\<close>

fun Number_amount :: "amount_val \<Rightarrow> jsnum" where
  "Number_amount ANull = Fin 0"
| "Number_amount AUndefined = NaN"
| "Number_amount (ANum n) = n"
| "Number_amount (AStr s) = StringToNumber s"

text \<open>\<^verbatim>\<open>xs.map(ensureAbsoluteUrl)\<close>: a truthy element that is not a string has no method
  \<open>startsWith\<close>, and the call raises a \<open>TypeError\<close>.\<close>

fun absolutize_item :: "item \<Rightarrow> error + item" where
  "absolutize_item Falsy = Inr Falsy"
| "absolutize_item (Str s) =
     Inr (case ensureAbsoluteUrl (Some s) of None \<Rightarrow> Falsy | Some u \<Rightarrow> Str u)"
| "absolutize_item (Other j) = Inl TypeError"

fun map_absolutize :: "item list \<Rightarrow> error + item list" where
  "map_absolutize [] = Inr []"
| "map_absolutize (x # xs) =
     (case absolutize_item x of
        Inl e \<Rightarrow> Inl e
      | Inr y \<Rightarrow> (case map_absolutize xs of Inl e \<Rightarrow> Inl e | Inr ys \<Rightarrow> Inr (y # ys)))"

definition normalize_urls :: "item list option \<Rightarrow> error + item list option" where
  "normalize_urls xs =
     (case xs of
        None \<Rightarrow> Inr None
      | Some l \<Rightarrow> (case map_absolutize l of Inl e \<Rightarrow> Inl e | Inr l' \<Rightarrow> Inr (Some (uniqueArray (Some l')))))"

definition normalize_texts :: "item list option \<Rightarrow> item list option" where
  "normalize_texts xs = (case xs of None \<Rightarrow> None | Some l \<Rightarrow> Some (uniqueArray (Some l)))"

text \<open>Lines 560-567: the entries of \<open>agentDetails\<close> whose cleaned value is not empty.\<close>

definition clean_agentDetails :: "string option obj \<Rightarrow> string option obj option" where
  "clean_agentDetails ad =
     (let cleaned =
            foldl (\<lambda>ob (k, v). case cleanText v of None \<Rightarrow> ob | Some cv \<Rightarrow> obj_put ob k (Some cv)) [] ad
      in if cleaned \<noteq> [] then Some cleaned else None)"

text \<open>Lines 576-584: the entries of \<open>details\<close> with key and value cleaned.\<close>

definition clean_details :: "string obj \<Rightarrow> string obj option" where
  "clean_details d =
     (let cleaned =
            foldl (\<lambda>ob (k, v). case (cleanText (Some k), cleanText (Some v)) of
                                 (Some ck, Some cv) \<Rightarrow> obj_put ob ck cv
                               | _ \<Rightarrow> ob) [] d
      in if cleaned \<noteq> [] then Some cleaned else None)"

text \<open>Lines 586-594.\<close>

definition normalize_price :: "price \<Rightarrow> price" where
  "normalize_price p =
     (let dp = cleanText (displayPrice p);
          n = Number_amount (amount p)
      in \<lparr> amount = (if isFinite n then ANum n else ANull),
           currency = (if str_truthy (currency p) then currency p else Some ''GBP''),
           displayPrice = dp \<rparr>)"

definition or_empty :: "string option \<Rightarrow> string" where
  "or_empty x = (case x of None \<Rightarrow> [] | Some s \<Rightarrow> s)"

text \<open>\<^verbatim>\<open>normalizeProperty\<close> (lines 547-597).\<close>

definition normalizeProperty :: "property \<Rightarrow> error + property" where
  "normalizeProperty p =
     (let address' = cleanText (address p);
          title' = (case cleanText (title p) of Some t \<Rightarrow> Some t | None \<Rightarrow> address');
          description' = cleanText (description p);
          propertyType0 = cleanText (propertyType p);
          propertyType' =
            (if propertyType0 = None
             then inferPropertyType
                    (Some (or_empty title' @ '' '' @ or_empty description' @ '' '' @ or_empty address'))
             else propertyType0);
          agentDetails' = (case agentDetails p of None \<Rightarrow> None | Some ad \<Rightarrow> clean_agentDetails ad);
          agent' =
            (case cleanText (agent p) of
               Some a \<Rightarrow> Some a
             | None \<Rightarrow> (case agentDetails' of
                          None \<Rightarrow> None
                        | Some ad \<Rightarrow> (case map_of ad ''name'' of None \<Rightarrow> None | Some n \<Rightarrow> n)))
      in case normalize_urls (images p) of
           Inl e \<Rightarrow> Inl e
         | Inr images' \<Rightarrow>
             (case normalize_urls (floorplans p) of
                Inl e \<Rightarrow> Inl e
              | Inr floorplans' \<Rightarrow>
                  Inr (p \<lparr> address := address', title := title', description := description',
                           propertyType := propertyType', agentDetails := agentDetails',
                           agent := agent', images := images', floorplans := floorplans',
                           keyFeatures := normalize_texts (keyFeatures p),
                           features := normalize_texts (features p),
                           details := (case details p of None \<Rightarrow> None | Some d \<Rightarrow> clean_details d),
                           price := map_option normalize_price (price p) \<rparr>)))"

subsection \<open>extractPropertyId\<close>

text \<open>Lines 141-145: \<^verbatim>\<open>/\/properties\/(\d+)|propertyId[=:](\d+)|#properties[=/](\d+)/i\<close>,
  the leftmost match, the alternatives tried in order at each position; the result is the
  digit group.\<close>

definition digits_after :: "string \<Rightarrow> string \<Rightarrow> string option" where
  "digits_after lit s =
     (if prefix lit s \<and> takeWhile is_digit (drop (length lit) s) \<noteq> []
      then Some (takeWhile is_digit (drop (length lit) s)) else None)"

definition id_here :: "string \<Rightarrow> string option" where
  "id_here s =
     (case digits_after ''/properties/'' s of
        Some d \<Rightarrow> Some d
      | None \<Rightarrow>
          (case digits_after ''propertyid='' s of
             Some d \<Rightarrow> Some d
           | None \<Rightarrow>
               (case digits_after ''propertyid:'' s of
                  Some d \<Rightarrow> Some d
                | None \<Rightarrow>
                    (case digits_after ''#properties='' s of
                       Some d \<Rightarrow> Some d
                     | None \<Rightarrow> digits_after ''#properties/'' s))))"

fun id_scan :: "string \<Rightarrow> string option" where
  "id_scan [] = None"
| "id_scan (c # cs) = (case id_here (c # cs) of Some d \<Rightarrow> Some d | None \<Rightarrow> id_scan cs)"

definition extractPropertyId :: "string option \<Rightarrow> string option" where
  "extractPropertyId link =
     (case link of None \<Rightarrow> None
      | Some u \<Rightarrow> if u = [] then None else id_scan (map ascii_lower u))"

subsection \<open>Pagination cursor: findNextPageUrl\<close>

text \<open>\<^verbatim>\<open>parseInt(s, 10)\<close>: leading white space, an optional sign, then the longest run of
  digits; \<open>NaN\<close> without a digit, and for \<open>null\<close>.\<close>

definition parseInt10 :: "string option \<Rightarrow> jsnum" where
  "parseInt10 x =
     (case x of
        None \<Rightarrow> NaN
      | Some s \<Rightarrow>
          (let t = dropWhile is_space s;
               neg = (t \<noteq> [] \<and> hd t = CHR ''-'');
               r = (if t \<noteq> [] \<and> (hd t = CHR ''-'' \<or> hd t = CHR ''+'') then tl t else t);
               ds = takeWhile is_digit r
           in if ds = [] then NaN
              else to_number (if neg then - of_nat (digits_value ds) else of_nat (digits_value ds))))"

text \<open>The request URL as \<^verbatim>\<open>new URL(requestUrl)\<close> gives it (the parser is the platform's):
  the text before the query and the query parameters. \<^verbatim>\<open>searchParams.get\<close> is the first
  value of a name.\<close>

record url_rec =
  url_base :: string
  url_query :: "(string \<times> string) list"

definition searchParams_get :: "url_rec \<Rightarrow> string \<Rightarrow> string option" where
  "searchParams_get u name = map_of (url_query u) name"

text \<open>The URL of a request: a text, or a parsed URL whose parameters \<open>page\<close> and \<open>index\<close>
  were set to numbers (\<^verbatim>\<open>searchParams.set\<close> followed by \<^verbatim>\<open>toString\<close>, both the
  platform's; \<open>None\<close> leaves a parameter as it was).\<close>

datatype req_url = Href string | Rebuilt url_rec "jsnum option" "jsnum option"

text \<open>What the program reads of the first element a selector matches: the \<open>href\<close> of the
  element or of its closest anchor, \<open>data-url\<close> and \<open>data-page\<close> (or \<open>data-page-number\<close>) of
  the element or of its closest button.\<close>

record next_control =
  nc_href :: "string option"
  nc_dataUrl :: "string option"
  nc_dataPage :: "string option"

definition url_of :: "string option \<Rightarrow> req_url option" where
  "url_of x = map_option Href x"

text \<open>Lines 640-663: the loop over the eight selectors; \<open>None\<close> in the list is a selector
  that matches nothing. The result \<open>None\<close> of the loop means that it fell through.\<close>

fun next_from_controls :: "url_rec \<Rightarrow> next_control option list \<Rightarrow> req_url option option" where
  "next_from_controls u [] = None"
| "next_from_controls u (None # rest) = next_from_controls u rest"
| "next_from_controls u (Some c # rest) =
     (if str_truthy (nc_href c) then Some (url_of (ensureAbsoluteUrl (nc_href c)))
      else if str_truthy (nc_dataUrl c) then Some (url_of (ensureAbsoluteUrl (nc_dataUrl c)))
      else if str_truthy (nc_dataPage c) then
        (case parseInt10 (nc_dataPage c) of
           Fin pageNum \<Rightarrow>
             Some (Some (Rebuilt u (Some (Fin pageNum))
                      (Some (Math_max (Fin 0)
                         (to_number ((pageNum - 1) * of_nat DEFAULT_PROPERTIES_PER_PAGE))))))
         | _ \<Rightarrow> Some (Some (Rebuilt u None None)))
      else next_from_controls u rest)"

text \<open>Lines 665-680: the fallback. \<open>currentPage\<close> is a page number of the crawl, and
  \<^verbatim>\<open>currentPage || 1\<close> replaces a zero.\<close>

definition next_fallback :: "url_rec \<Rightarrow> nat \<Rightarrow> req_url" where
  "next_fallback u currentPage =
     (let currentIndex = parseInt10 (searchParams_get u ''index'');
          currentPageParam = parseInt10 (searchParams_get u ''page'');
          cp = (if currentPage = 0 then 1 else currentPage);
          nextIndex =
            (case currentIndex of
               Fin i \<Rightarrow> to_number (i + of_nat DEFAULT_PROPERTIES_PER_PAGE)
             | _ \<Rightarrow>
                 (case currentPageParam of
                    Fin q \<Rightarrow> to_number (q * of_nat DEFAULT_PROPERTIES_PER_PAGE)
                  | _ \<Rightarrow> Math_max (Fin 0) (Fin (of_nat (cp * DEFAULT_PROPERTIES_PER_PAGE)))));
          nextPage =
            (case currentPageParam of
               Fin q \<Rightarrow> to_number (q + 1)
             | _ \<Rightarrow> Fin (of_nat (cp + 1)))
      in Rebuilt u (Some nextPage) (Some nextIndex))"

text \<open>\<^verbatim>\<open>findNextPageUrl\<close> (lines 628-681); \<open>None\<close> would be the result \<open>null\<close>.\<close>

definition findNextPageUrl :: "next_control option list \<Rightarrow> url_rec \<Rightarrow> nat \<Rightarrow> req_url option" where
  "findNextPageUrl controls u currentPage =
     (case next_from_controls u controls of
        Some r \<Rightarrow> r
      | None \<Rightarrow> Some (next_fallback u currentPage))"

subsection \<open>Detail pages: extractPropertyDetails\<close>

text \<open>The parts of a fetched detail page the program reads. Parsing HTML and JSON is the
  platform's and the libraries'; the page is what they return:

  \<^item> \<open>dp_jsonLd\<close>: the values \<open>extractJsonLd\<close> collects. Of an object the fields the program
    reads are kept; a name, a description and an offer price are texts when present.
  \<^item> \<open>dp_embedded\<close>: for every embedded JSON blob, \<open>None\<close> when \<open>findPropertyPayload\<close> finds
    no payload in it, else the partial record \<open>extractPropertyFromPayload\<close> builds.
  \<^item> the texts and attributes the selectors of \<open>extractPropertyDetails\<close>,
    \<open>extractDetailsFromHtml\<close> and \<open>extractAgentFromHtml\<close> yield, in document order.
  \<^item> \<open>dp_api\<close>: what the API fallback yields when it is called: \<open>None\<close> when
    \<open>fetchPropertyApi\<close> returns \<open>null\<close>, else the partial record built from its payload.
  \<^item> \<open>dp_now\<close>: the time stamp.\<close>

datatype ld_image = ImgArray "item list" | ImgSingle item

record ld_offer =
  offer_price :: "string option"
  offer_priceCurrency :: "string option"

record ld_object =
  ld_type :: "string option"
  ld_name :: "string option"
  ld_description :: "string option"
  ld_image :: "ld_image option"
  ld_offers :: "ld_offer option"

datatype ld_entry = LdNull | LdPrimitive | LdObject ld_object

record detail_page =
  dp_jsonLd :: "ld_entry list"
  dp_embedded :: "property option list"
  dp_h1 :: string
  dp_description :: string
  dp_keyFeatures :: "string list"
  dp_dl :: "(string \<times> string) list"
  dp_detail_dt :: "(string \<times> string) list"
  dp_gallery :: "(string option \<times> string option) list"
  dp_floorplans :: "(string option \<times> string option) list"
  dp_agent_selectors :: "(string \<times> string) list"
  dp_tel :: string
  dp_api :: "property option"
  dp_now :: string

text \<open>Lines 837-840: \<^verbatim>\<open>jsonLdData.find(...)\<close>; reading \<^verbatim>\<open>d['@type']\<close> of \<open>null\<close> raises.\<close>

fun find_listing :: "ld_entry list \<Rightarrow> error + ld_object option" where
  "find_listing [] = Inr None"
| "find_listing (LdNull # rest) = Inl TypeError"
| "find_listing (LdPrimitive # rest) = find_listing rest"
| "find_listing (LdObject ob # rest) =
     (if ld_type ob \<in> {Some ''Product'', Some ''RealEstateListing'', Some ''Apartment'', Some ''House''}
      then Inr (Some ob) else find_listing rest)"

fun item_truthy :: "item \<Rightarrow> bool" where
  "item_truthy (Str s) = (s \<noteq> [])"
| "item_truthy Falsy = False"
| "item_truthy (Other j) = True"

text \<open>Lines 842-860: the linked-data entry written over the accumulator.\<close>

definition apply_jsonLd :: "property \<Rightarrow> ld_object \<Rightarrow> property" where
  "apply_jsonLd pd ob =
     (let pd1 = (if str_truthy (ld_name ob) then pd\<lparr>title := ld_name ob\<rparr> else pd);
          pd2 = (if str_truthy (ld_description ob) then pd1\<lparr>description := ld_description ob\<rparr> else pd1);
          pd3 = (case ld_image ob of
                   None \<Rightarrow> pd2
                 | Some (ImgArray xs) \<Rightarrow> pd2\<lparr>images := Some xs\<rparr>
                 | Some (ImgSingle x) \<Rightarrow> if item_truthy x then pd2\<lparr>images := Some [x]\<rparr> else pd2);
          pd4 = (case ld_offers ob of
                   None \<Rightarrow> pd3
                 | Some offer \<Rightarrow>
                     pd3\<lparr>price := Some
                       \<lparr> amount = (if str_truthy (offer_price offer)
                                    then AStr (or_empty (offer_price offer)) else ANull),
                         currency = (if str_truthy (offer_priceCurrency offer)
                                     then offer_priceCurrency offer else Some ''GBP''),
                         displayPrice = (if str_truthy (offer_price offer)
                                         then offer_price offer else None) \<rparr>\<rparr>)
      in if \<not> str_truthy (propertyType pd4) \<and> str_truthy (ld_type ob)
         then pd4\<lparr>propertyType := cleanText (ld_type ob)\<rparr> else pd4)"

text \<open>\<^verbatim>\<open>Object.keys(extracted).length\<close> for a record built by
  \<open>extractPropertyFromPayload\<close>, which creates a key only with a value (and \<open>agent\<close> only
  together with \<open>agentDetails\<close>).\<close>

definition has_keys :: "property \<Rightarrow> bool" where
  "has_keys e =
     (address e \<noteq> None \<or> propertyType e \<noteq> None \<or> bedrooms e \<noteq> None \<or> bathrooms e \<noteq> None \<or>
      description e \<noteq> None \<or> title e \<noteq> None \<or> price e \<noteq> None \<or> images e \<noteq> None \<or>
      floorplans e \<noteq> None \<or> keyFeatures e \<noteq> None \<or> agentDetails e \<noteq> None)"

text \<open>Lines 862-872: the loop over the embedded blobs; the flag is \<open>usedEmbedded\<close>.\<close>

fun merge_embedded :: "property \<times> bool \<Rightarrow> property option list \<Rightarrow> property \<times> bool" where
  "merge_embedded acc [] = acc"
| "merge_embedded acc (None # rest) = merge_embedded acc rest"
| "merge_embedded (pd, used) (Some e # rest) =
     (if has_keys e then merge_embedded (mergePropertyData pd (Some e), True) rest
      else merge_embedded (pd, used) rest)"

text \<open>Lines 793-818, \<open>extractDetailsFromHtml\<close>, over the term and definition texts.\<close>

definition addDetail :: "string obj \<Rightarrow> string \<times> string \<Rightarrow> string obj" where
  "addDetail ob kv =
     (case (cleanText (Some (fst kv)), cleanText (Some (snd kv))) of
        (Some ck, Some cv) \<Rightarrow> obj_put ob ck cv
      | _ \<Rightarrow> ob)"

definition extractDetailsFromHtml :: "detail_page \<Rightarrow> string obj" where
  "extractDetailsFromHtml pg = foldl addDetail (foldl addDetail [] (dp_dl pg)) (dp_detail_dt pg)"

text \<open>Lines 820-829, \<open>getDetailValue\<close>.\<close>

fun getDetailValue :: "string obj \<Rightarrow> string list \<Rightarrow> string option" where
  "getDetailValue [] keywords = None"
| "getDetailValue ((k, v) # rest) keywords =
     (if \<exists>kw\<in>set keywords. str_includes kw (toLowerCase k) then Some v
      else getDetailValue rest keywords)"

text \<open>Lines 362-382, \<open>extractAgentFromHtml\<close>: for each selector the text of its first match
  and the text of a \<open>tel:\<close> link under it; \<open>tel\<close> is the text of the first \<open>tel:\<close> link of the
  page.\<close>

fun extractAgentFromHtml :: "(string \<times> string) list \<Rightarrow> string \<Rightarrow> string option obj option" where
  "extractAgentFromHtml [] tel = None"
| "extractAgentFromHtml ((txt, sel_tel) # rest) tel =
     (case cleanText (Some txt) of
        None \<Rightarrow> extractAgentFromHtml rest tel
      | Some t \<Rightarrow>
          if length t < 120
          then Some [(''name'', Some t),
                     (''phone'', (case cleanText (Some sel_tel) of
                                    Some ph \<Rightarrow> Some ph
                                  | None \<Rightarrow> cleanText (Some tel)))]
          else extractAgentFromHtml rest tel)"

text \<open>\<^verbatim>\<open>$(el).attr('src') || $(el).attr('data-src')\<close>.\<close>

definition src_of :: "string option \<times> string option \<Rightarrow> string option" where
  "src_of a = (if str_truthy (fst a) then fst a else snd a)"

text \<open>Lines 888-896: the gallery images, when the accumulator has none. The test
  \<^verbatim>\<open>includes(src)\<close> compares the attribute with the absolute URLs already pushed.\<close>

fun gallery_loop :: "item list \<Rightarrow> (string option \<times> string option) list \<Rightarrow> item list" where
  "gallery_loop acc [] = acc"
| "gallery_loop acc (a # rest) =
     (if str_truthy (src_of a) \<and> Str (or_empty (src_of a)) \<notin> set acc
      then gallery_loop
             (acc @ [case ensureAbsoluteUrl (src_of a) of None \<Rightarrow> Falsy | Some u \<Rightarrow> Str u]) rest
      else gallery_loop acc rest)"

text \<open>Lines 898-902.\<close>

fun floorplan_loop :: "(string option \<times> string option) list \<Rightarrow> item list" where
  "floorplan_loop [] = []"
| "floorplan_loop (a # rest) =
     (if str_truthy (src_of a)
      then (case ensureAbsoluteUrl (src_of a) of None \<Rightarrow> Falsy | Some u \<Rightarrow> Str u) # floorplan_loop rest
      else floorplan_loop rest)"

text \<open>Lines 880-884.\<close>

fun keyFeature_loop :: "string list \<Rightarrow> item list" where
  "keyFeature_loop [] = []"
| "keyFeature_loop (t # rest) =
     (case cleanText (Some t) of
        None \<Rightarrow> keyFeature_loop rest
      | Some f \<Rightarrow> if length f > 2 then Str f # keyFeature_loop rest else keyFeature_loop rest)"

definition or_else :: "string option \<Rightarrow> string option \<Rightarrow> string option" where
  "or_else a b = (if str_truthy a then a else b)"

definition nonempty_or :: "'a list \<Rightarrow> 'a list option \<Rightarrow> 'a list option" where
  "nonempty_or xs other = (if xs \<noteq> [] then Some xs else other)"

text \<open>The body of the \<open>try\<close> block of \<open>extractPropertyDetails\<close> (lines 833-929), in the
  order of the source. Lines 836-860: the linked-data entry and the first value of
  \<open>extractionMethod\<close>.\<close>

definition jsonLd_stage :: "property \<Rightarrow> ld_object option \<Rightarrow> property \<times> string" where
  "jsonLd_stage basicInfo propertyJsonLd =
     (case propertyJsonLd of
        None \<Rightarrow> (basicInfo, ''html-parse'')
      | Some ob \<Rightarrow> (apply_jsonLd basicInfo ob, ''json-ld''))"

text \<open>Lines 862-875: the embedded blobs.\<close>

definition embedded_stage :: "detail_page \<Rightarrow> property \<times> string \<Rightarrow> property \<times> string" where
  "embedded_stage pg acc =
     (let r = merge_embedded (fst acc, False) (dp_embedded pg)
      in (fst r,
          if snd r then (if snd acc = ''json-ld'' then ''json-ld+embedded'' else ''embedded-json'')
          else snd acc))"

text \<open>Lines 888-896.\<close>

definition gallery_stage :: "detail_page \<Rightarrow> property \<Rightarrow> property" where
  "gallery_stage pg pd =
     (if images pd = None then pd\<lparr>images := Some (gallery_loop [] (dp_gallery pg))\<rparr> else pd)"

text \<open>Lines 904-908.\<close>

definition agent_stage :: "detail_page \<Rightarrow> property \<Rightarrow> property" where
  "agent_stage pg pd =
     (case extractAgentFromHtml (dp_agent_selectors pg) (dp_tel pg) of
        None \<Rightarrow> pd
      | Some ad \<Rightarrow>
          if agentDetails pd = None
          then (if \<not> str_truthy (agent pd)
                then pd\<lparr>agentDetails := Some ad,
                        agent := (case map_of ad ''name'' of None \<Rightarrow> None | Some n \<Rightarrow> n)\<rparr>
                else pd\<lparr>agentDetails := Some ad\<rparr>)
          else pd)"

text \<open>Lines 910-918: the property type from the detail table, else inferred from the
  local \<open>title\<close> and \<open>description\<close> and the address.\<close>

definition type_stage :: "string obj \<Rightarrow> string option \<Rightarrow> string option \<Rightarrow> property \<Rightarrow> property" where
  "type_stage details' title' description' pd =
     (let fromDetails = getDetailValue details' [''property type'', ''property type:''];
          pd4 = (if \<not> str_truthy (propertyType pd) \<and> str_truthy fromDetails
                 then pd\<lparr>propertyType := fromDetails\<rparr> else pd)
      in if \<not> str_truthy (propertyType pd4)
         then pd4\<lparr>propertyType :=
                inferPropertyType
                  (Some (or_empty title' @ '' '' @ or_empty description' @ '' '' @
                         or_empty (address pd4)))\<rparr>
         else pd4)"

text \<open>Lines 877-886 and 898-929: the values read from the HTML and the record returned.\<close>

definition html_stage :: "detail_page \<Rightarrow> property \<times> string \<Rightarrow> property" where
  "html_stage pg acc =
     (let title' = or_else (title (fst acc)) (cleanText (Some (dp_h1 pg)));
          description' = or_else (description (fst acc)) (cleanText (Some (dp_description pg)));
          details' = extractDetailsFromHtml pg;
          pd5 = type_stage details' title' description' (agent_stage pg (gallery_stage pg (fst acc)))
      in pd5\<lparr> title := or_else title' (title pd5),
               description := or_else description' (description pd5),
               keyFeatures := nonempty_or (keyFeature_loop (dp_keyFeatures pg)) (keyFeatures pd5),
               details := nonempty_or details' (details pd5),
               floorplans := nonempty_or (floorplan_loop (dp_floorplans pg)) (floorplans pd5),
               images := (case images pd5 of
                            None \<Rightarrow> None
                          | Some xs \<Rightarrow> if xs \<noteq> [] then Some xs else None),
               extractionMethod := Some (snd acc) \<rparr>)"

definition extract_body :: "detail_page \<Rightarrow> property \<Rightarrow> error + property" where
  "extract_body pg basicInfo =
     (case find_listing (dp_jsonLd pg) of
        Inl e \<Rightarrow> Inl e
      | Inr propertyJsonLd \<Rightarrow>
          Inr (html_stage pg (embedded_stage pg (jsonLd_stage basicInfo propertyJsonLd))))"

text \<open>\<open>extractPropertyDetails\<close> (lines 831-934): the \<open>catch\<close> turns an exception into the
  basic record tagged \<open>failed\<close>.\<close>

definition extractPropertyDetails :: "detail_page \<Rightarrow> property \<Rightarrow> property" where
  "extractPropertyDetails pg basicInfo =
     (case extract_body pg basicInfo of
        Inl e \<Rightarrow> basicInfo\<lparr>extractionMethod := Some ''failed''\<rparr>
      | Inr p \<Rightarrow> p)"

subsection \<open>The crawl: shared state, requests and handlers\<close>

text \<open>The effective limits (after clamping) and the \<open>collectDetails\<close> switch.\<close>

record config =
  maxResults :: rat
  maxPages :: rat
  collectDetails :: bool

text \<open>A request as the program creates it: a search page with its page number, or a
  detail page with the card record.\<close>

datatype request = ListRequest req_url nat | DetailRequest string property

text \<open>What a handler reads of a search page: for every card container the result of
  \<open>extractPropertyCard\<close> (\<open>None\<close> is \<open>null\<close>), the next-page controls by selector, and the
  parsed request URL.\<close>

record list_page =
  lp_cards :: "property option list"
  lp_controls :: "next_control option list"
  lp_url :: url_rec

text \<open>A handler suspended at an \<open>await\<close>: in the loop of lines 1157-1169 after
  \<^verbatim>\<open>crawler.addRequests\<close> (with the cards still to queue), or after
  \<^verbatim>\<open>Dataset.pushData\<close> and before the batch is emptied (a search page in basic mode then
  goes on to pagination).\<close>

datatype task =
    AwaitAdd "property list" nat list_page
  | AwaitFlush "(nat \<times> list_page) option"

text \<open>The variables shared by all handlers (lines 1043-1048), the data set, the requests
  given to \<^verbatim>\<open>crawler.addRequests\<close> (\<open>added\<close>: all of them, oldest first; \<open>pending\<close>: those no
  handler has taken yet) and the suspended handlers. The set \<open>propertyUrls\<close> is the list of
  its elements in insertion order.\<close>

record crawl_state =
  propertiesQueued :: nat
  propertiesStored :: nat
  pagesProcessed :: nat
  propertyUrls :: "string list"
  propertyDataBatch :: "property list"
  dataset :: "property list"
  added :: "request list"
  pending :: "request list"
  tasks :: "task list"

definition addRequests :: "crawl_state \<Rightarrow> request \<Rightarrow> crawl_state" where
  "addRequests s r = s\<lparr>added := added s @ [r], pending := pending s @ [r]\<rparr>"

text \<open>Lines 1220-1225: the state before \<^verbatim>\<open>crawler.run()\<close>.\<close>

definition initial_state :: "string \<Rightarrow> crawl_state" where
  "initial_state searchUrl =
     \<lparr> propertiesQueued = 0, propertiesStored = 0, pagesProcessed = 0, propertyUrls = [],
       propertyDataBatch = [], dataset = [],
       added = [ListRequest (Href searchUrl) 1], pending = [ListRequest (Href searchUrl) 1],
       tasks = [] \<rparr>"

text \<open>\<^verbatim>\<open>userData?.pageNumber || pagesProcessed || 1\<close>.\<close>

definition page_or :: "nat \<Rightarrow> nat \<Rightarrow> nat" where
  "page_or n processed = (if n \<noteq> 0 then n else if processed \<noteq> 0 then processed else 1)"

text \<open>The count the limits are tested against.\<close>

definition counted :: "config \<Rightarrow> crawl_state \<Rightarrow> nat" where
  "counted cfg s = (if collectDetails cfg then propertiesQueued s else propertiesStored s)"

text \<open>The test \<^verbatim>\<open>if (nextUrl)\<close>: \<open>null\<close> and the empty text are falsy; the text of a parsed
  URL is never empty.\<close>

fun url_truthy :: "req_url option \<Rightarrow> bool" where
  "url_truthy None = False"
| "url_truthy (Some (Href t)) = (t \<noteq> [])"
| "url_truthy (Some (Rebuilt u p i)) = True"

text \<open>Lines 1189-1204: pagination.\<close>

definition paginate :: "config \<Rightarrow> crawl_state \<Rightarrow> nat \<Rightarrow> list_page \<Rightarrow> crawl_state" where
  "paginate cfg s n pg =
     (if of_nat (counted cfg s) < maxResults cfg \<and> of_nat (pagesProcessed s) < maxPages cfg
      then (let nextUrl = findNextPageUrl (lp_controls pg) (lp_url pg) (page_or n (pagesProcessed s))
            in case nextUrl of
                 Some u \<Rightarrow>
                   if url_truthy nextUrl
                   then addRequests s (ListRequest u (page_or n (pagesProcessed s) + 1))
                   else s
               | None \<Rightarrow> s)
      else s)"

text \<open>Lines 1146-1152: the cards of a page, against the shared set. The result is the
  list \<open>properties\<close> and the set afterwards.\<close>

fun card_loop :: "rat \<Rightarrow> property list \<Rightarrow> string list \<Rightarrow> property option list
    \<Rightarrow> property list \<times> string list" where
  "card_loop remaining props urls [] = (props, urls)"
| "card_loop remaining props urls (extracted # rest) =
     (if of_nat (length props) \<ge> remaining then (props, urls)
      else case extracted of
             None \<Rightarrow> card_loop remaining props urls rest
           | Some p \<Rightarrow>
               if \<not> str_truthy (url p) \<or> or_empty (url p) \<in> set urls
               then card_loop remaining props urls rest
               else card_loop remaining (props @ [p]) (urls @ [or_empty (url p)]) rest)"

text \<open>Lines 1157-1169: one turn of the loop that queues the detail requests; after the
  loop comes pagination.\<close>

definition queue_loop :: "config \<Rightarrow> crawl_state \<Rightarrow> property list \<Rightarrow> nat \<Rightarrow> list_page \<Rightarrow> crawl_state" where
  "queue_loop cfg s props n pg =
     (case props of
        [] \<Rightarrow> paginate cfg s n pg
      | p # rest \<Rightarrow>
          if of_nat (propertiesQueued s) \<ge> maxResults cfg then paginate cfg s n pg
          else (addRequests s (DetailRequest (or_empty (url p)) p))
                 \<lparr>tasks := tasks s @ [AwaitAdd rest n pg]\<rparr>)"

definition resume_add :: "config \<Rightarrow> crawl_state \<Rightarrow> property list \<Rightarrow> nat \<Rightarrow> list_page \<Rightarrow> crawl_state" where
  "resume_add cfg s rest n pg =
     queue_loop cfg (s\<lparr>propertiesQueued := propertiesQueued s + 1\<rparr>) rest n pg"

text \<open>Lines 1124-1127 and 1183-1186: the batch is copied to the data set when it has
  reached the batch size, and emptied when the push has returned.\<close>

definition flush_start :: "crawl_state \<Rightarrow> (nat \<times> list_page) option \<Rightarrow> crawl_state" where
  "flush_start s k =
     s\<lparr>dataset := dataset s @ propertyDataBatch s, tasks := tasks s @ [AwaitFlush k]\<rparr>"

definition resume_flush :: "config \<Rightarrow> crawl_state \<Rightarrow> (nat \<times> list_page) option \<Rightarrow> crawl_state" where
  "resume_flush cfg s k =
     (let s' = s\<lparr>propertyDataBatch := []\<rparr>
      in case k of None \<Rightarrow> s' | Some (n, pg) \<Rightarrow> paginate cfg s' n pg)"

text \<open>Lines 1171-1181: basic mode stores the cards themselves. The second component
  tells whether \<open>normalizeProperty\<close> raised, which ends the handler. \<open>now\<close> is the time
  stamp; one value stands for the clock readings of a handler.\<close>

fun store_loop :: "config \<Rightarrow> string \<Rightarrow> crawl_state \<Rightarrow> property list \<Rightarrow> crawl_state \<times> bool" where
  "store_loop cfg now s [] = (s, False)"
| "store_loop cfg now s (p # rest) =
     (if of_nat (propertiesStored s) \<ge> maxResults cfg then (s, False)
      else case normalizeProperty (p\<lparr>scrapedAt := Some now, extractionMethod := Some ''basic-card''\<rparr>) of
             Inl e \<Rightarrow> (s, True)
           | Inr np \<Rightarrow>
               store_loop cfg now
                 (s\<lparr>propertyDataBatch := propertyDataBatch s @ [np],
                    propertiesStored := propertiesStored s + 1\<rparr>) rest)"

text \<open>A handler takes its request from the pending ones. When the handler raises, the
  crawler keeps the request for a retry.\<close>

definition take_request :: "crawl_state \<Rightarrow> request \<Rightarrow> crawl_state" where
  "take_request s r = s\<lparr>pending := remove1 r (pending s)\<rparr>"

text \<open>The handler of a search page (lines 1133-1206) up to its first \<open>await\<close>.\<close>

definition list_handler :: "config \<Rightarrow> crawl_state \<Rightarrow> req_url \<Rightarrow> nat \<Rightarrow> list_page \<Rightarrow> string \<Rightarrow> crawl_state" where
  "list_handler cfg s0 u n pg now =
     (let s = take_request s0 (ListRequest u n);
          s1 = s\<lparr>pagesProcessed := max (pagesProcessed s) (if n \<noteq> 0 then n else 1)\<rparr>;
          remaining = maxResults cfg - of_nat (counted cfg s1)
      in if remaining \<le> 0 then s1
         else
           (let (props, urls) = card_loop remaining [] (propertyUrls s1) (lp_cards pg);
                s2 = s1\<lparr>propertyUrls := urls\<rparr>
            in if collectDetails cfg then queue_loop cfg s2 props n pg
               else (case store_loop cfg now s2 props of
                       (s3, True) \<Rightarrow> s3\<lparr>pending := pending s0\<rparr>
                     | (s3, False) \<Rightarrow>
                         if length (propertyDataBatch s3) \<ge> DATASET_BATCH_SIZE
                         then flush_start s3 (Some (n, pg))
                         else paginate cfg s3 n pg)))"

text \<open>Lines 1098-1103.\<close>

definition needsApi :: "property \<Rightarrow> bool" where
  "needsApi p =
     (\<not> str_truthy (propertyType p) \<or> \<not> str_truthy (agent p) \<or> details p = None \<or>
      images p = None \<or> \<not> str_truthy (description p))"

text \<open>Lines 1093-1116: the record a detail handler computes; \<open>Inl\<close> when
  \<open>normalizeProperty\<close> raises.\<close>

definition detail_record :: "string \<Rightarrow> property \<Rightarrow> detail_page \<Rightarrow> error + property" where
  "detail_record link basicInfo pg =
     (let pid = (if str_truthy (propertyId basicInfo) then propertyId basicInfo
                 else extractPropertyId (Some link));
          baseInfo = basicInfo\<lparr>propertyId := pid, url := Some link\<rparr>;
          p0 = extractPropertyDetails pg baseInfo;
          p1 = (if needsApi p0 \<and> str_truthy pid
                then (case dp_api pg of None \<Rightarrow> p0 | Some extracted \<Rightarrow> mergePropertyData p0 (Some extracted))
                else p0)
      in normalizeProperty (p1\<lparr>scrapedAt := Some (dp_now pg)\<rparr>))"

text \<open>The handler of a detail page (lines 1092-1131). An exception leaves the shared state
  as it was.\<close>

definition detail_handler :: "crawl_state \<Rightarrow> string \<Rightarrow> property \<Rightarrow> detail_page \<Rightarrow> crawl_state" where
  "detail_handler s0 link basicInfo pg =
     (case detail_record link basicInfo pg of
        Inl e \<Rightarrow> s0
      | Inr normalized \<Rightarrow>
          (let s = take_request s0 (DetailRequest link basicInfo);
               s1 = s\<lparr>propertyDataBatch := propertyDataBatch s @ [normalized],
                      propertiesStored := propertiesStored s + 1\<rparr>
           in if length (propertyDataBatch s1) \<ge> DATASET_BATCH_SIZE then flush_start s1 None
              else s1))"

text \<open>One step of the crawl: a handler starts on a pending request with the page the
  fetch returned, a suspended handler resumes, or a request is given up (a blocked
  response or an exception in every retry). Handlers interleave at every \<open>await\<close>.\<close>

inductive crawl_step :: "config \<Rightarrow> crawl_state \<Rightarrow> crawl_state \<Rightarrow> bool" for cfg :: config where
  list_begin:
    "ListRequest u n \<in> set (pending s) \<Longrightarrow>
     crawl_step cfg s (list_handler cfg s u n pg now)"
| detail_begin:
    "DetailRequest link b \<in> set (pending s) \<Longrightarrow>
     crawl_step cfg s (detail_handler s link b dpg)"
| add_resumes:
    "AwaitAdd rest n pg \<in> set (tasks s) \<Longrightarrow>
     crawl_step cfg s
       (resume_add cfg (s\<lparr>tasks := remove1 (AwaitAdd rest n pg) (tasks s)\<rparr>) rest n pg)"
| flush_resumes:
    "AwaitFlush k \<in> set (tasks s) \<Longrightarrow>
     crawl_step cfg s
       (resume_flush cfg (s\<lparr>tasks := remove1 (AwaitFlush k) (tasks s)\<rparr>) k)"
| request_fails:
    "r \<in> set (pending s) \<Longrightarrow> crawl_step cfg s (take_request s r)"

text \<open>The states a run can reach from the start URL.\<close>

inductive reachable :: "config \<Rightarrow> string \<Rightarrow> crawl_state \<Rightarrow> bool" for cfg :: config and searchUrl :: string where
  start: "reachable cfg searchUrl (initial_state searchUrl)"
| step: "reachable cfg searchUrl s \<Longrightarrow> crawl_step cfg s s' \<Longrightarrow> reachable cfg searchUrl s'"

text \<open>Lines 1230-1243: the last flush and the run summary.\<close>

record summary =
  sum_propertiesStored :: nat
  sum_uniqueProperties :: nat
  sum_pagesProcessed :: nat

definition finish :: "crawl_state \<Rightarrow> crawl_state \<times> summary" where
  "finish s =
     ((if propertyDataBatch s \<noteq> [] then s\<lparr>dataset := dataset s @ propertyDataBatch s\<rparr> else s),
      \<lparr> sum_propertiesStored = propertiesStored s,
        sum_uniqueProperties = length (propertyUrls s),
        sum_pagesProcessed = (if pagesProcessed s \<noteq> 0 then pagesProcessed s else 1) \<rparr>)"

subsection \<open>The payload search: findNestedObject\<close>

text \<open>The parsed JSON as a heap: an object or array is a node at an address, and a value
  is a reference to a node or a primitive (\<open>null\<close> and \<open>undefined\<close> too; the flag is its
  truthiness). An object lists its keys in the order of \<^verbatim>\<open>Object.keys\<close>. References may
  form cycles.\<close>

datatype js_value = Primitive bool | Reference nat

datatype node = ArrayNode "js_value list" | ObjectNode "(string \<times> js_value) list"

type_synonym heap = "node list"

fun children :: "node \<Rightarrow> js_value list" where
  "children (ArrayNode items) = items"
| "children (ObjectNode kvs) = map snd kvs"

text \<open>The loop of \<open>findNestedObject\<close> (lines 291-307) on the queue and the set \<open>seen\<close>.
  Beside the result it returns the objects it has visited (taken from the queue, not seen
  before, and given to the predicate), each with its depth, in order. The predicate reads
  the node. A reference outside the heap does not occur; the loop passes over it.\<close>

definition visit :: "nat \<Rightarrow> nat \<Rightarrow> (nat \<times> nat) list \<times> nat option \<Rightarrow> (nat \<times> nat) list \<times> nat option" where
  "visit a depth r = ((a, depth) # fst r, snd r)"

function bfs_loop :: "heap \<Rightarrow> (node \<Rightarrow> bool) \<Rightarrow> nat \<Rightarrow> (js_value \<times> nat) list \<Rightarrow> nat set
    \<Rightarrow> (nat \<times> nat) list \<times> nat option" where
  "bfs_loop h predicate maxDepth [] seen = ([], None)"
| "bfs_loop h predicate maxDepth ((Primitive t, depth) # queue) seen =
     bfs_loop h predicate maxDepth queue seen"
| "bfs_loop h predicate maxDepth ((Reference a, depth) # queue) seen =
     (if a \<ge> length h \<or> a \<in> seen then bfs_loop h predicate maxDepth queue seen
      else if predicate (h ! a) then ([(a, depth)], Some a)
      else if depth \<ge> maxDepth
        then visit a depth (bfs_loop h predicate maxDepth queue (insert a seen))
      else visit a depth
             (bfs_loop h predicate maxDepth
                (queue @ map (\<lambda>item. (item, depth + 1)) (children (h ! a))) (insert a seen)))"
  by pat_completeness auto

text \<open>The loop ends: a visit adds an address of the heap to \<open>seen\<close>, every other turn
  shortens the queue.\<close>

termination
proof -
  have "card ({..<n} - seen) - Suc 0 < card ({..<n} - seen)" if "a < n" "a \<notin> seen"
    for a n :: nat and seen
  proof -
    from that have "a \<in> {..<n} - seen" by simp
    then have "0 < card ({..<n} - seen)" by (auto simp: card_gt_0_iff)
    then show ?thesis by simp
  qed
  then show ?thesis
    by (relation "measures [\<lambda>(h, p, m, q, seen). card ({..<length h} - seen),
                            \<lambda>(h, p, m, q, seen). length q]")
       (auto simp: not_le)
qed

text \<open>\<open>findNestedObject\<close> (lines 286-310): the result and the visits of the search.\<close>

definition search :: "heap \<Rightarrow> js_value \<Rightarrow> (node \<Rightarrow> bool) \<Rightarrow> nat \<Rightarrow> (nat \<times> nat) list \<times> nat option" where
  "search h rt predicate maxDepth =
     (case rt of
        Primitive t \<Rightarrow> ([], None)
      | Reference a \<Rightarrow> bfs_loop h predicate maxDepth [(rt, 0)] {})"

definition findNestedObject :: "heap \<Rightarrow> js_value \<Rightarrow> (node \<Rightarrow> bool) \<Rightarrow> nat \<Rightarrow> nat option" where
  "findNestedObject h rt predicate maxDepth = snd (search h rt predicate maxDepth)"

definition visited :: "heap \<Rightarrow> js_value \<Rightarrow> (node \<Rightarrow> bool) \<Rightarrow> nat \<Rightarrow> (nat \<times> nat) list" where
  "visited h rt predicate maxDepth = fst (search h rt predicate maxDepth)"

text \<open>\<open>isLikelyPropertyPayload\<close> (lines 312-319); \<^verbatim>\<open>key in obj\<close> on the keys of the
  object.\<close>

definition has_any :: "string list \<Rightarrow> (string \<times> js_value) list \<Rightarrow> bool" where
  "has_any names kvs = list_ex (\<lambda>k. k \<in> fst ` set kvs) names"

fun isLikelyPropertyPayload :: "node \<Rightarrow> bool" where
  "isLikelyPropertyPayload (ArrayNode items) = False"
| "isLikelyPropertyPayload (ObjectNode kvs) =
     (let hasAddress = has_any [''displayAddress'', ''address'', ''propertyAddress'', ''addressSummary''] kvs;
          hasBeds = has_any [''bedrooms'', ''bedroomCount'', ''numBedrooms''] kvs;
          hasType = has_any [''propertyType'', ''propertySubType'', ''propertyTypeFullDescription''] kvs;
          hasPrice = has_any [''price'', ''displayPrice'', ''priceAmount''] kvs
      in hasAddress \<and> (hasBeds \<or> hasType \<or> hasPrice))"

text \<open>\<open>findPropertyPayload\<close> (lines 321-326) looks at five keys of the blob before it
  searches; it calls the search with the predicate above and the default depth 6.\<close>

fun truthy :: "js_value \<Rightarrow> bool" where
  "truthy (Primitive t) = t"
| "truthy (Reference a) = True"

definition js_or :: "js_value \<Rightarrow> js_value \<Rightarrow> js_value" where
  "js_or x y = (if truthy x then x else y)"

definition get_property :: "heap \<Rightarrow> nat \<Rightarrow> string \<Rightarrow> js_value" where
  "get_property h a name =
     (if a < length h
      then (case h ! a of
              ArrayNode items \<Rightarrow> Primitive False
            | ObjectNode kvs \<Rightarrow> (case map_of kvs name of None \<Rightarrow> Primitive False | Some v \<Rightarrow> v))
      else Primitive False)"

fun isPlainObject :: "heap \<Rightarrow> js_value \<Rightarrow> bool" where
  "isPlainObject h (Primitive t) = False"
| "isPlainObject h (Reference a) =
     (a < length h \<and> (case h ! a of ArrayNode items \<Rightarrow> False | ObjectNode kvs \<Rightarrow> True))"

definition findPropertyPayload :: "heap \<Rightarrow> js_value \<Rightarrow> nat option" where
  "findPropertyPayload h data =
     (case data of
        Primitive t \<Rightarrow> None
      | Reference a \<Rightarrow>
          (let direct = js_or (get_property h a ''propertyData'')
                       (js_or (get_property h a ''property'')
                       (js_or (get_property h a ''listing'')
                       (js_or (get_property h a ''details'') (get_property h a ''result''))))
           in case direct of
                Reference d \<Rightarrow>
                  if isPlainObject h direct then Some d
                  else findNestedObject h data isLikelyPropertyPayload 6
              | Primitive t \<Rightarrow> findNestedObject h data isLikelyPropertyPayload 6))"

subsection \<open>Vocabulary of the specification\<close>


text \<open>What the specification calls an input that already has a scheme, read as in
  RFC 3986: a letter, then letters, digits, \<open>+\<close>, \<open>-\<close> or \<open>.\<close>, then a colon. The program has
  no such test; the definition is used to state the specification's sentence only.\<close>

definition spec_has_scheme :: "string \<Rightarrow> bool" where
  "spec_has_scheme u =
     (case u of
        [] \<Rightarrow> False
      | c # cs \<Rightarrow>
          (is_upper c \<or> is_lower c) \<and>
          (case dropWhile (\<lambda>x. is_upper x \<or> is_lower x \<or> is_digit x \<or> x \<in> set ''+-.'') cs of
             [] \<Rightarrow> False
           | d # _ \<Rightarrow> d = CHR '':''))"

text \<open>What \<open>uniqueArray\<close> keeps of an element (a string is cleaned; a falsy element and a
  string that cleans to nothing are dropped), and the key it deduplicates by.\<close>

fun clean_item :: "item \<Rightarrow> item option" where
  "clean_item Falsy = None"
| "clean_item (Str s) = map_option Str (cleanText (Some s))"
| "clean_item (Other j) = Some (Other j)"

fun item_key :: "item \<Rightarrow> string" where
  "item_key (Str s) = s"
| "item_key (Other j) = j"
| "item_key Falsy = []"

fun cleaned_items :: "item list \<Rightarrow> item list" where
  "cleaned_items [] = []"
| "cleaned_items (x # xs) =
     (case clean_item x of None \<Rightarrow> cleaned_items xs | Some y \<Rightarrow> y # cleaned_items xs)"

text \<open>First writer wins: a populated field keeps its value; a field that is not populated
  takes the value of the partial when the partial has one. \<open>is_empty\<close> says which values
  count as empty (the empty string for a text field, none for a number or an object).\<close>

definition populated :: "('a \<Rightarrow> bool) \<Rightarrow> 'a option \<Rightarrow> bool" where
  "populated is_empty cur = (case cur of None \<Rightarrow> False | Some x \<Rightarrow> \<not> is_empty x)"

definition first_writer_wins :: "('a \<Rightarrow> bool) \<Rightarrow> 'a option \<Rightarrow> 'a option \<Rightarrow> 'a option \<Rightarrow> bool" where
  "first_writer_wins is_empty cur new res =
     ((populated is_empty cur \<longrightarrow> res = cur) \<and>
      (\<not> populated is_empty cur \<and> new \<noteq> None \<longrightarrow> res = new) \<and>
      (new = None \<longrightarrow> res = cur))"

text \<open>Union of two lists: when the partial has the list, the result holds the cleaned
  elements of both lists, each key once, in the order of the concatenation.\<close>

definition list_or_empty :: "'a list option \<Rightarrow> 'a list" where
  "list_or_empty xs = (case xs of None \<Rightarrow> [] | Some l \<Rightarrow> l)"

definition union_dedup :: "item list option \<Rightarrow> item list option \<Rightarrow> item list option \<Rightarrow> bool" where
  "union_dedup cur new res =
     ((new = None \<longrightarrow> res = cur) \<and>
      (\<forall>ys. new = Some ys \<longrightarrow>
         (\<exists>zs. res = Some zs \<and>
               subseq zs (cleaned_items (list_or_empty cur @ ys)) \<and>
               distinct (map item_key zs) \<and>
               set (map item_key zs) = item_key ` set (cleaned_items (list_or_empty cur @ ys)))))"

text \<open>Key-by-key merge in which the accumulator wins, for objects (distinct keys).\<close>

definition details_merged :: "string obj option \<Rightarrow> string obj option \<Rightarrow> string obj option \<Rightarrow> bool" where
  "details_merged cur new res =
     ((new = None \<longrightarrow> res = cur) \<and>
      (\<forall>ed. new = Some ed \<and> distinct (map fst ed) \<and> distinct (map fst (list_or_empty cur)) \<longrightarrow>
         (\<exists>md. res = Some md \<and>
               (\<forall>k. map_of md k =
                      (case map_of (list_or_empty cur) k of
                         Some v \<Rightarrow> Some v
                       | None \<Rightarrow> map_of ed k)))))"

text \<open>Two partial records used as a concrete instance.\<close>

definition example_card :: property where
  "example_card = empty_property
     \<lparr> address := Some ''12 High Street, Leeds'',
       price := Some \<lparr>amount = ANum (Fin 250000), currency = Some ''GBP'', displayPrice = None\<rparr>,
       bedrooms := Some (Fin 3),
       images := Some [Str ''https://media.example/1.jpg''],
       details := Some [(''Tenure'', ''Freehold'')] \<rparr>"

definition example_embedded :: property where
  "example_embedded = empty_property
     \<lparr> address := Some ''Flat 2, 12 High Street'',
       title := Some ''3 bedroom house'',
       price := Some \<lparr>amount = ANum (Fin 260000), currency = Some ''GBP'', displayPrice = None\<rparr>,
       images := Some [Str ''https://media.example/1.jpg'', Str ''https://media.example/2.jpg''],
       details := Some [(''Tenure'', ''Leasehold''), (''Council tax'', ''Band B'')] \<rparr>"

text \<open>A listing whose linked-data offer has the price text \<open>POA\<close>: the linked-data pass
  stores the text as amount and as display text. The record after one and after two
  normalisations.\<close>

definition poa_listing :: property where
  "poa_listing = empty_property
     \<lparr> propertyId := Some ''162532097'',
       url := Some ''https://www.rightmove.co.uk/properties/162532097'',
       address := Some ''12 High Street, Leeds'',
       title := Some ''3 bedroom house'',
       price := Some \<lparr>amount = AStr ''POA'', currency = Some ''GBP'', displayPrice = Some ''POA''\<rparr>,
       extractionMethod := Some ''json-ld'' \<rparr>"

definition poa_listing_once :: property where
  "poa_listing_once = poa_listing
     \<lparr> price := Some \<lparr>amount = ANull, currency = Some ''GBP'', displayPrice = Some ''POA''\<rparr> \<rparr>"

definition poa_listing_twice :: property where
  "poa_listing_twice = poa_listing
     \<lparr> price := Some \<lparr>amount = ANum (Fin 0), currency = Some ''GBP'', displayPrice = Some ''POA''\<rparr> \<rparr>"


text \<open>A card with a link and nothing else, a detail page on which no selector finds
  anything, and the record the detail handler emits for the two. The same page with a
  \<open>null\<close> linked-data entry, on which \<^verbatim>\<open>d['@type']\<close> raises.\<close>

definition bare_card :: property where
  "bare_card = empty_property
     \<lparr> propertyId := Some ''162532097'',
       url := Some ''https://www.rightmove.co.uk/properties/162532097'',
       features := Some [], isNewHome := True \<rparr>"





text \<open>The page numbers of the search-page requests and the links of the detail-page
  requests in a list of requests, in order.\<close>

fun request_page :: "request \<Rightarrow> nat list" where
  "request_page (ListRequest u n) = [n]"
| "request_page (DetailRequest link b) = []"

fun request_link :: "request \<Rightarrow> string list" where
  "request_link (ListRequest u n) = []"
| "request_link (DetailRequest link b) = [link]"

definition list_pages :: "request list \<Rightarrow> nat list" where
  "list_pages rs = concat (map request_page rs)"

definition detail_links :: "request list \<Rightarrow> string list" where
  "detail_links rs = concat (map request_link rs)"

text \<open>What a suspended handler will still do: the page it will paginate from, and the
  links of the cards it has still to queue.\<close>

fun task_page :: "task \<Rightarrow> nat list" where
  "task_page (AwaitAdd rest n pg) = [n]"
| "task_page (AwaitFlush None) = []"
| "task_page (AwaitFlush (Some (n, pg))) = [n]"

definition card_links :: "property list \<Rightarrow> string list" where
  "card_links props = map (\<lambda>p. or_empty (url p)) props"

fun task_links :: "task \<Rightarrow> string list" where
  "task_links (AwaitAdd rest n pg) = card_links rest"
| "task_links (AwaitFlush k) = []"

text \<open>The links given to \<^verbatim>\<open>crawler.addRequests\<close> so far together with those that
  suspended handlers hold, and the search pages whose handler has still to run or to
  paginate, as multisets.\<close>

definition claimed :: "crawl_state \<Rightarrow> string multiset" where
  "claimed s = mset (detail_links (added s)) + mset (concat (map task_links (tasks s)))"

definition tokens :: "crawl_state \<Rightarrow> nat multiset" where
  "tokens s = mset (list_pages (pending s)) + mset (concat (map task_page (tasks s)))"

text \<open>The invariant of the set \<open>propertyUrls\<close>: every such link is in the set, once.\<close>

definition dedup_inv :: "crawl_state \<Rightarrow> bool" where
  "dedup_inv s = (claimed s \<subseteq># mset (propertyUrls s) \<and> distinct (propertyUrls s))"

text \<open>The invariants of pagination. The search pages requested so far are \<open>1, ..., k\<close>;
  at most page \<open>k\<close> has a handler that has still to run or to paginate, and a suspended
  handler is on a page already counted in \<open>pagesProcessed\<close>. \<open>holds_page\<close> is the state
  seen by the handler of page \<open>k\<close> while it runs.\<close>

definition holds_page :: "config \<Rightarrow> nat \<Rightarrow> crawl_state \<Rightarrow> bool" where
  "holds_page cfg k s =
     (list_pages (added s) = [1..<Suc k] \<and> 1 \<le> k \<and> of_nat k < maxPages cfg + 1 \<and>
      tokens s = {#} \<and> pagesProcessed s = k)"

definition page_inv :: "config \<Rightarrow> nat \<Rightarrow> crawl_state \<Rightarrow> bool" where
  "page_inv cfg k s =
     (list_pages (added s) = [1..<Suc k] \<and> 1 \<le> k \<and> of_nat k < maxPages cfg + 1 \<and>
      tokens s \<subseteq># {#k#} \<and>
      (\<forall>n \<in> set (concat (map task_page (tasks s))). n \<le> pagesProcessed s) \<and>
      pagesProcessed s \<le> k)"

text \<open>A run with the limits 50 and 5 in detail mode: the state after the handler of the
  first search page, for a page without any card and for a page whose cards are twice
  the same listing.\<close>

definition example_config :: config where
  "example_config = \<lparr> maxResults = 50, maxPages = 5, collectDetails = True \<rparr>"

definition example_search :: string where
  "example_search = ''https://www.rightmove.co.uk/new-homes-for-sale/find.html''"

definition empty_list_page :: list_page where
  "empty_list_page =
     \<lparr> lp_cards = [], lp_controls = [],
       lp_url = \<lparr> url_base = ''https://www.rightmove.co.uk/new-homes-for-sale/find.html'',
                  url_query = [] \<rparr> \<rparr>"

definition twin_list_page :: list_page where
  "twin_list_page = empty_list_page\<lparr> lp_cards := [Some bare_card, None, Some bare_card] \<rparr>"

definition after_empty_page :: crawl_state where
  "after_empty_page =
     list_handler example_config (initial_state example_search) (Href example_search) 1
       empty_list_page ''2026-01-01T00:00:00.000Z''"

definition after_twin_page :: crawl_state where
  "after_twin_page =
     list_handler example_config (initial_state example_search) (Href example_search) 1
       twin_list_page ''2026-01-01T00:00:00.000Z''"

text \<open>\<open>reach h a n b\<close>: the node \<open>b\<close> is reached from the node \<open>a\<close> by following \<open>n\<close>
  references.\<close>

fun reach :: "heap \<Rightarrow> nat \<Rightarrow> nat \<Rightarrow> nat \<Rightarrow> bool" where
  "reach h a 0 b = (a = b \<and> a < length h)"
| "reach h a (Suc n) b =
     (b < length h \<and>
      list_ex (\<lambda>c. reach h a n c \<and> Reference b \<in> set (children (h ! c))) [0..<length h])"

definition reach_from :: "heap \<Rightarrow> js_value \<Rightarrow> nat \<Rightarrow> nat \<Rightarrow> bool" where
  "reach_from h rt n b = (case rt of Primitive t \<Rightarrow> False | Reference r \<Rightarrow> reach h r n b)"

text \<open>The invariant of the search from the node \<open>r\<close>, on the visits \<open>V\<close> so far and the
  queue \<open>q\<close>: visited nodes are at their depth from the root, below the limit, and fail
  the predicate; queue entries are at their depth; depths never decrease along the visits
  and the queue, and differ by at most one in the queue; every reference of a visited node
  below the limit has been visited no deeper than one level below, or waits in the queue;
  the root has been visited or waits; no node is visited twice.\<close>

definition visited_ok :: "heap \<Rightarrow> (node \<Rightarrow> bool) \<Rightarrow> nat \<Rightarrow> nat \<Rightarrow> (nat \<times> nat) list \<Rightarrow> bool" where
  "visited_ok h P m r V =
     (\<forall>(w, dw) \<in> set V. w < length h \<and> dw \<le> m \<and> reach h r dw w \<and> \<not> P (h ! w))"

definition queue_ok :: "heap \<Rightarrow> nat \<Rightarrow> nat \<Rightarrow> (js_value \<times> nat) list \<Rightarrow> bool" where
  "queue_ok h m r q =
     (\<forall>(v, d) \<in> set q. d \<le> m \<and> (\<forall>c. v = Reference c \<longrightarrow> c < length h \<longrightarrow> reach h r d c))"

definition levels :: "(nat \<times> nat) list \<Rightarrow> (js_value \<times> nat) list \<Rightarrow> bool" where
  "levels V q =
     (sorted (map snd V @ map snd q) \<and> (\<forall>x \<in> set q. \<forall>y \<in> set q. snd x \<le> snd y + 1))"

definition expanded :: "heap \<Rightarrow> nat \<Rightarrow> (nat \<times> nat) list \<Rightarrow> (js_value \<times> nat) list \<Rightarrow> bool" where
  "expanded h m V q =
     (\<forall>(w, dw) \<in> set V. dw < m \<longrightarrow>
        (\<forall>c. Reference c \<in> set (children (h ! w)) \<longrightarrow> c < length h \<longrightarrow>
             (\<exists>dc \<le> dw + 1. (c, dc) \<in> set V) \<or> (Reference c, dw + 1) \<in> set q))"

definition root_ok :: "nat \<Rightarrow> (nat \<times> nat) list \<Rightarrow> (js_value \<times> nat) list \<Rightarrow> bool" where
  "root_ok r V q = ((r, 0) \<in> set V \<or> (Reference r, 0) \<in> set q)"

definition bfs_inv :: "heap \<Rightarrow> (node \<Rightarrow> bool) \<Rightarrow> nat \<Rightarrow> nat \<Rightarrow> (nat \<times> nat) list
    \<Rightarrow> (js_value \<times> nat) list \<Rightarrow> bool" where
  "bfs_inv h P m r V q =
     (r < length h \<and> visited_ok h P m r V \<and> queue_ok h m r q \<and> levels V q \<and>
      expanded h m V q \<and> root_ok r V q \<and> distinct (map fst V))"

text \<open>A blob with cycles in which the nearest listing payload is at depth 2, and a chain
  whose only listing payload is at depth 7.\<close>

definition cyclic_heap :: heap where
  "cyclic_heap =
     [ObjectNode [(''props'', Reference 1), (''self'', Reference 0)],
      ObjectNode [(''results'', Reference 3), (''pageProps'', Reference 2), (''total'', Primitive True)],
      ObjectNode [(''displayAddress'', Primitive True), (''bedrooms'', Primitive True),
                  (''parent'', Reference 1)],
      ArrayNode [Reference 2, Primitive False, Reference 4],
      ObjectNode [(''address'', Primitive True), (''price'', Reference 0)]]"

definition deep_heap :: heap where
  "deep_heap =
     [ObjectNode [(''a'', Reference 1)], ObjectNode [(''b'', Reference 2)],
      ObjectNode [(''c'', Reference 3)], ObjectNode [(''d'', Reference 4)],
      ObjectNode [(''e'', Reference 5)], ObjectNode [(''f'', Reference 6)],
      ObjectNode [(''g'', Reference 7)],
      ObjectNode [(''address'', Primitive True), (''price'', Primitive True)]]"


section \<open>Verification\<close>

subsection \<open>Evaluation of characters\<close>
lemma char_of_eq1: "(char_of (n::nat) = c) = (n mod 256 = of_char c)"
  by (simp add: char_of_eq_iff take_bit_eq_mod)

lemma char_of_eq2: "(c = char_of (n::nat)) = (n mod 256 = of_char c)"
  using char_of_eq1[of n c] by auto

lemmas char_defs = is_digit_def is_space_def ascii_lower_def is_upper_def is_word_def is_lower_def
  to_lower_char_def char_of_eq1 char_of_eq2


subsection \<open>cleanText is idempotent\<close>

text \<open>A text is \<open>spaced\<close> when its only white space is single spaces.\<close>

fun spaced :: "string \<Rightarrow> bool" where
  "spaced [] = True"
| "spaced [c] = (is_space c \<longrightarrow> c = CHR 0x20)"
| "spaced (c # d # r) = ((is_space c \<longrightarrow> c = CHR 0x20 \<and> \<not> is_space d) \<and> spaced (d # r))"

lemma spaced_collapse: "spaced (collapse_ws s)"
proof (induction s rule: collapse_ws.induct)
  case 1
  show ?case by simp
next
  case (2 c cs)
  show ?case
  proof (cases "is_space c")
    case True
    note sp = True
    show ?thesis
    proof (cases "dropWhile is_space cs")
      case Nil
      with sp show ?thesis by (simp del: dropWhile_eq_Nil_conv)
    next
      case (Cons a l)
      then have na: "\<not> is_space a" by (simp add: dropWhile_eq_Cons_conv)
      from 2(1)[OF sp] Cons na have "spaced (a # collapse_ws l)" by simp
      with sp Cons na show ?thesis by simp
    qed
  next
    case False
    with 2(2) have "spaced (collapse_ws cs)" by simp
    with False show ?thesis by (cases "collapse_ws cs") simp_all
  qed
qed

lemma collapse_spaced: "spaced s \<Longrightarrow> collapse_ws s = s"
  by (induction s rule: spaced.induct) auto

lemma spaced_dropWhile: "spaced s \<Longrightarrow> spaced (dropWhile P s)"
  by (induction s rule: spaced.induct) auto

lemma spaced_snoc:
  "spaced (s @ [c]) =
     (spaced s \<and> (is_space c \<longrightarrow> c = CHR 0x20) \<and> (s \<noteq> [] \<and> is_space (last s) \<longrightarrow> \<not> is_space c))"
  by (induction s rule: spaced.induct) auto

lemma spaced_rev: "spaced s \<Longrightarrow> spaced (rev s)"
proof (induction s rule: spaced.induct)
  case (3 c d r)
  then have "spaced (rev (d # r))" by simp
  moreover have "last (rev (d # r)) = d" by simp
  moreover have "rev (c # d # r) = rev (d # r) @ [c]" by simp
  ultimately show ?case using 3(2) by (simp only: spaced_snoc) auto
qed auto

lemma spaced_trim: "spaced s \<Longrightarrow> spaced (trim s)"
  by (simp add: trim_def spaced_rev spaced_dropWhile)

lemma trim_trim: "trim (trim s) = trim s"
proof -
  let ?t = "dropWhile is_space (rev (dropWhile is_space s))"
  have a: "dropWhile is_space (rev ?t) = rev ?t"
  proof (cases "?t = []")
    case True
    then show ?thesis by (simp only: rev.simps(1) dropWhile.simps(1))
  next
    case False
    have "hd (rev ?t) = last ?t" using False by (simp add: hd_rev)
    also have "last ?t = last (rev (dropWhile is_space s))"
      using False by (metis dropWhile_eq_Nil_conv dropWhile_last)
    also have "\<dots> = hd (dropWhile is_space s)" using False
      by (metis dropWhile.simps(1) last_rev rev.simps(1))
    finally have "\<not> is_space (hd (rev ?t))" using False
      by (metis dropWhile.simps(1) hd_dropWhile rev.simps(1))
    then show ?thesis by (simp add: dropWhile_eq_self_iff)
  qed
  have b: "dropWhile is_space ?t = ?t" by (simp add: dropWhile_eq_self_iff hd_dropWhile)
  show ?thesis unfolding trim_def a by (simp add: b)
qed

lemma cleanText_idem: "cleanText (cleanText x) = cleanText x"
proof (cases x)
  case None
  then show ?thesis by (simp add: cleanText_def)
next
  case (Some t)
  let ?c = "trim (collapse_ws t)"
  have "spaced ?c" by (simp add: spaced_trim spaced_collapse)
  then have "trim (collapse_ws ?c) = ?c" by (simp add: collapse_spaced trim_trim)
  with Some show ?thesis by (simp add: cleanText_def Let_def)
qed

subsection \<open>parsePrice\<close>












subsection \<open>inferPropertyType\<close>

lemma first_match_None_iff: "(first_match ps t = None) = (\<forall>(re, v)\<in>set ps. \<not> re t)"
  by (induction ps t rule: first_match.induct) auto

lemma first_match_Some_iff:
  "(first_match ps t = Some v) =
     (\<exists>pre re post. ps = pre @ (re, v) # post \<and> re t \<and> (\<forall>(r, w)\<in>set pre. \<not> r t))"
proof (induction ps t rule: first_match.induct)
  case (1 t)
  then show ?case by simp
next
  case (2 re' v' ps t)
  show ?case
  proof (cases "re' t")
    case True
    have "(\<exists>pre re post. (re', v') # ps = pre @ (re, v) # post \<and> re t \<and> (\<forall>(r, w)\<in>set pre. \<not> r t))
          = (v' = v)"
    proof
      assume "\<exists>pre re post. (re', v') # ps = pre @ (re, v) # post \<and> re t \<and> (\<forall>(r, w)\<in>set pre. \<not> r t)"
      then obtain pre re post where h: "(re', v') # ps = pre @ (re, v) # post" "re t"
        "\<forall>(r, w)\<in>set pre. \<not> r t" by blast
      show "v' = v"
      proof (cases pre)
        case Nil
        with h(1) show ?thesis by simp
      next
        case (Cons a list)
        with h(1) have "a = (re', v')" by simp
        with Cons h(3) True show ?thesis by auto
      qed
    next
      assume "v' = v"
      then have "(re', v') # ps = [] @ (re', v) # ps" by simp
      with True show "\<exists>pre re post. (re', v') # ps = pre @ (re, v) # post \<and> re t \<and> (\<forall>(r, w)\<in>set pre. \<not> r t)"
        by (metis (no_types, lifting) empty_iff empty_set)
    qed
    with True show ?thesis by simp
  next
    case False
    have "(\<exists>pre re post. (re', v') # ps = pre @ (re, v) # post \<and> re t \<and> (\<forall>(r, w)\<in>set pre. \<not> r t))
          = (\<exists>pre re post. ps = pre @ (re, v) # post \<and> re t \<and> (\<forall>(r, w)\<in>set pre. \<not> r t))"
    proof
      assume "\<exists>pre re post. (re', v') # ps = pre @ (re, v) # post \<and> re t \<and> (\<forall>(r, w)\<in>set pre. \<not> r t)"
      then obtain pre re post where h: "(re', v') # ps = pre @ (re, v) # post" "re t"
        "\<forall>(r, w)\<in>set pre. \<not> r t" by blast
      show "\<exists>pre re post. ps = pre @ (re, v) # post \<and> re t \<and> (\<forall>(r, w)\<in>set pre. \<not> r t)"
      proof (cases pre)
        case Nil
        with h(1,2) False show ?thesis by simp
      next
        case (Cons a list)
        with h(1) have "ps = list @ (re, v) # post" by simp
        moreover from Cons h(3) have "\<forall>(r, w)\<in>set list. \<not> r t" by simp
        ultimately show ?thesis using h(2) by blast
      qed
    next
      assume "\<exists>pre re post. ps = pre @ (re, v) # post \<and> re t \<and> (\<forall>(r, w)\<in>set pre. \<not> r t)"
      then obtain pre re post where h: "ps = pre @ (re, v) # post" "re t"
        "\<forall>(r, w)\<in>set pre. \<not> r t" by blast
      have "(re', v') # ps = ((re', v') # pre) @ (re, v) # post" using h(1) by simp
      moreover have "\<forall>(r, w)\<in>set ((re', v') # pre). \<not> r t" using h(3) False by simp
      ultimately show "\<exists>pre re post. (re', v') # ps = pre @ (re, v) # post \<and> re t \<and> (\<forall>(r, w)\<in>set pre. \<not> r t)"
        using h(2) by blast
    qed
    with False 2 show ?thesis by simp
  qed
qed

lemma semi_detached_prefix: "prefix ''semi-detached'' s \<Longrightarrow> semi_detached_here s"
  by (auto simp: prefix_def semi_detached_here_def)

lemma anywhere_includes:
  "str_includes ''semi-detached'' s \<Longrightarrow> anywhere semi_detached_here s"
  by (induction s) (auto simp: semi_detached_prefix)

lemmas type_defs = inferPropertyType_def PROPERTY_TYPE_PATTERNS_def re_semi_detached_def
  re_word_def semi_detached_here_def

text \<open>
  Claim C6. \<open>inferPropertyType\<close> (the specification's \<open>classifyPropertyType\<close>) returns the
  value of the first pattern of the ordered list that matches and \<open>null\<close> when none does;
  the pattern for semi-detached comes before the one for detached, so every text that
  contains \<open>semi-detached\<close> in any letter case is classified \<open>Semi-Detached\<close>.
\<close>

theorem inferPropertyType_first_match:
  "inferPropertyType None = None \<and> inferPropertyType (Some []) = None \<and>
   (t \<noteq> [] \<longrightarrow>
      ((inferPropertyType (Some t) = None) = (\<forall>(re, v)\<in>set PROPERTY_TYPE_PATTERNS. \<not> re t)) \<and>
      (\<forall>v. (inferPropertyType (Some t) = Some v) =
           (\<exists>pre re post. PROPERTY_TYPE_PATTERNS = pre @ (re, v) # post \<and> re t \<and>
                          (\<forall>(r, w)\<in>set pre. \<not> r t)))) \<and>
   (str_includes ''semi-detached'' (map ascii_lower t) \<longrightarrow>
      inferPropertyType (Some t) = Some ''Semi-Detached'') \<and>
   inferPropertyType (Some ''Semi-Detached House'') = Some ''Semi-Detached'' \<and>
   map snd PROPERTY_TYPE_PATTERNS =
     [''Semi-Detached'', ''Detached'', ''Terraced'', ''Bungalow'', ''Maisonette'', ''Apartment'',
      ''Flat'', ''Studio'', ''Duplex'', ''Penthouse'', ''House'']"
proof -
  have a: "inferPropertyType None = None" "inferPropertyType (Some []) = None"
    by (simp_all add: inferPropertyType_def)
  have b: "t \<noteq> [] \<longrightarrow>
      ((inferPropertyType (Some t) = None) = (\<forall>(re, v)\<in>set PROPERTY_TYPE_PATTERNS. \<not> re t)) \<and>
      (\<forall>v. (inferPropertyType (Some t) = Some v) =
           (\<exists>pre re post. PROPERTY_TYPE_PATTERNS = pre @ (re, v) # post \<and> re t \<and>
                          (\<forall>(r, w)\<in>set pre. \<not> r t)))"
    by (simp add: inferPropertyType_def first_match_None_iff first_match_Some_iff)
  have c: "str_includes ''semi-detached'' (map ascii_lower t) \<longrightarrow>
      inferPropertyType (Some t) = Some ''Semi-Detached''"
  proof
    assume h: "str_includes ''semi-detached'' (map ascii_lower t)"
    then have "re_semi_detached t" unfolding re_semi_detached_def by (rule anywhere_includes)
    moreover from h have "t \<noteq> []" by auto
    ultimately show "inferPropertyType (Some t) = Some ''Semi-Detached''"
      by (simp add: inferPropertyType_def PROPERTY_TYPE_PATTERNS_def)
  qed
  have d: "inferPropertyType (Some ''Semi-Detached House'') = Some ''Semi-Detached''"
    by (simp add: type_defs char_defs)
  have e: "map snd PROPERTY_TYPE_PATTERNS =
     [''Semi-Detached'', ''Detached'', ''Terraced'', ''Bungalow'', ''Maisonette'', ''Apartment'',
      ''Flat'', ''Studio'', ''Duplex'', ''Penthouse'', ''House'']"
    by (simp add: PROPERTY_TYPE_PATTERNS_def)
  from a b c d e show ?thesis by (intro conjI)
qed

theorem inferPropertyType_first_match_witness:
  "str_includes ''semi-detached'' (map ascii_lower ''3 bed SEMI-DETACHED house'') \<and>
   inferPropertyType (Some ''3 bed SEMI-DETACHED house'') = Some ''Semi-Detached'' \<and>
   inferPropertyType (Some ''3 bed SEMI-DETACHED house'') \<noteq> Some ''Detached''"
proof -
  have h: "str_includes ''semi-detached'' (map ascii_lower ''3 bed SEMI-DETACHED house'')"
    by (simp add: char_defs)
  with inferPropertyType_first_match[of "''3 bed SEMI-DETACHED house''"]
  have "inferPropertyType (Some ''3 bed SEMI-DETACHED house'') = Some ''Semi-Detached''" by blast
  with h show ?thesis by simp
qed

subsection \<open>ensureAbsoluteUrl\<close>

lemmas url_defs = ensureAbsoluteUrl_def startsWith_def BASE_URL_def

text \<open>The sentence of claim C8 about inputs that already have a scheme fails for a scheme
  that does not start with \<open>http\<close>.\<close>

theorem ensureAbsoluteUrl_scheme_counterexample:
  "spec_has_scheme ''ftp://example.com/x.jpg'' \<and>
   ensureAbsoluteUrl (Some ''ftp://example.com/x.jpg'') =
     Some ''https://www.rightmove.co.uk/ftp://example.com/x.jpg'' \<and>
   ensureAbsoluteUrl (Some ''ftp://example.com/x.jpg'') \<noteq> Some ''ftp://example.com/x.jpg''"
  by (simp add: url_defs spec_has_scheme_def char_defs)

text \<open>
  Claim C8, as amended. \<open>ensureAbsoluteUrl\<close> returns \<open>null\<close> for \<open>null\<close> and the empty string;
  an input that starts with the four characters \<open>http\<close> is returned unchanged; otherwise an
  input that starts with \<open>//\<close> gets \<open>https:\<close> in front; every other input gets the base
  origin in front, with a \<open>/\<close> between them unless the input starts with one. That
  includes inputs with another scheme, such as \<open>ftp:\<close> or \<open>data:\<close>.
\<close>

theorem ensureAbsoluteUrl_cases:
  "ensureAbsoluteUrl None = None \<and> ensureAbsoluteUrl (Some []) = None \<and>
   (prefix ''http'' u \<longrightarrow> ensureAbsoluteUrl (Some u) = Some u) \<and>
   (\<not> prefix ''http'' u \<and> prefix ''//'' u \<longrightarrow> ensureAbsoluteUrl (Some u) = Some (''https:'' @ u)) \<and>
   (\<not> prefix ''http'' u \<and> \<not> prefix ''//'' u \<and> prefix ''/'' u \<longrightarrow>
      ensureAbsoluteUrl (Some u) = Some (BASE_URL @ u)) \<and>
   (u \<noteq> [] \<and> \<not> prefix ''http'' u \<and> \<not> prefix ''/'' u \<longrightarrow>
      ensureAbsoluteUrl (Some u) = Some (BASE_URL @ ''/'' @ u)) \<and>
   ensureAbsoluteUrl (Some ''/properties/123'') = Some (BASE_URL @ ''/properties/123'') \<and>
   ensureAbsoluteUrl (Some ''//img.example.com/x.jpg'') = Some ''https://img.example.com/x.jpg''"
proof -
  have a: "ensureAbsoluteUrl None = None" "ensureAbsoluteUrl (Some []) = None"
    by (simp_all add: ensureAbsoluteUrl_def)
  have b: "prefix ''http'' u \<longrightarrow> ensureAbsoluteUrl (Some u) = Some u"
    by (auto simp: ensureAbsoluteUrl_def startsWith_def)
  have c: "\<not> prefix ''http'' u \<and> prefix ''//'' u \<longrightarrow> ensureAbsoluteUrl (Some u) = Some (''https:'' @ u)"
    by (auto simp: ensureAbsoluteUrl_def startsWith_def)
  have d: "\<not> prefix ''http'' u \<and> \<not> prefix ''//'' u \<and> prefix ''/'' u \<longrightarrow>
      ensureAbsoluteUrl (Some u) = Some (BASE_URL @ u)"
    by (auto simp: ensureAbsoluteUrl_def startsWith_def)
  have e: "u \<noteq> [] \<and> \<not> prefix ''http'' u \<and> \<not> prefix ''/'' u \<longrightarrow>
      ensureAbsoluteUrl (Some u) = Some (BASE_URL @ ''/'' @ u)"
  proof (intro impI, elim conjE)
    assume h: "u \<noteq> []" "\<not> prefix ''http'' u" "\<not> prefix ''/'' u"
    then have "\<not> prefix ''//'' u" by (auto simp: prefix_def)
    with h show "ensureAbsoluteUrl (Some u) = Some (BASE_URL @ ''/'' @ u)"
      by (simp add: ensureAbsoluteUrl_def startsWith_def)
  qed
  have f: "ensureAbsoluteUrl (Some ''/properties/123'') = Some (BASE_URL @ ''/properties/123'')"
    "ensureAbsoluteUrl (Some ''//img.example.com/x.jpg'') = Some ''https://img.example.com/x.jpg''"
    by (simp_all add: url_defs)
  from a b c d e f show ?thesis by (intro conjI)
qed

theorem ensureAbsoluteUrl_cases_witness:
  "ensureAbsoluteUrl (Some ''https://media.rightmove.co.uk/a.jpg'') = Some ''https://media.rightmove.co.uk/a.jpg'' \<and>
   ensureAbsoluteUrl (Some ''//cdn.example.com/a.jpg'') = Some ''https://cdn.example.com/a.jpg'' \<and>
   ensureAbsoluteUrl (Some ''/img/a.jpg'') = Some ''https://www.rightmove.co.uk/img/a.jpg'' \<and>
   ensureAbsoluteUrl (Some ''img/a.jpg'') = Some ''https://www.rightmove.co.uk/img/a.jpg'' \<and>
   ensureAbsoluteUrl (Some ''data:image/png;base64,AAAA'') =
     Some ''https://www.rightmove.co.uk/data:image/png;base64,AAAA''"
  using ensureAbsoluteUrl_cases[of "''https://media.rightmove.co.uk/a.jpg''"]
    ensureAbsoluteUrl_cases[of "''//cdn.example.com/a.jpg''"]
    ensureAbsoluteUrl_cases[of "''/img/a.jpg''"]
    ensureAbsoluteUrl_cases[of "''img/a.jpg''"]
    ensureAbsoluteUrl_cases[of "''data:image/png;base64,AAAA''"]
  by (simp add: BASE_URL_def)

subsection \<open>Run limits\<close>





subsection \<open>uniqueArray and mergePropertyData\<close>

lemma cleanText_empty: "cleanText (Some []) = None"
  by (simp add: cleanText_def trim_def)

lemma unique_loop_subseq: "subseq (unique_loop seen xs) (cleaned_items xs)"
  by (induction seen xs rule: unique_loop.induct)
     (auto simp: cleanText_empty split: option.splits)

lemma unique_loop_keys:
  "set (map item_key (unique_loop seen xs)) = item_key ` set (cleaned_items xs) - seen"
  by (induction seen xs rule: unique_loop.induct)
     (auto simp: cleanText_empty split: option.splits)

lemma unique_loop_distinct: "distinct (map item_key (unique_loop seen xs))"
proof (induction seen xs rule: unique_loop.induct)
  case (3 seen s rest)
  then show ?case
    using unique_loop_keys[of "insert (the (cleanText (Some s))) seen" rest]
    by (auto simp: cleanText_empty split: option.splits)
next
  case (4 seen j rest)
  then show ?case using unique_loop_keys[of "insert j seen" rest] by auto
qed auto

lemma map_of_update_in_place:
  "map_of (map (\<lambda>(k', v'). if k' = k then (k', v) else (k', v')) ob) =
     (if k \<in> fst ` set ob then (map_of ob)(k \<mapsto> v) else map_of ob)"
  by (induction ob) (auto simp: fun_eq_iff)

lemma map_of_insert_index: "map_of (insert_index k v ob) = (map_of ob)(k \<mapsto> v)"
  by (induction ob) (auto simp: fun_eq_iff)

lemma map_of_snoc_fresh:
  assumes "k \<notin> fst ` set ob"
  shows "map_of (ob @ [(k, v)]) = (map_of ob)(k \<mapsto> v)"
proof
  fix x
  have n: "map_of ob k = None" using assms by (simp add: map_of_eq_None_iff)
  show "map_of (ob @ [(k, v)]) x = ((map_of ob)(k \<mapsto> v)) x"
    using n by (simp add: map_add_def split: option.splits)
qed

lemma map_of_obj_put: "map_of (obj_put ob k v) = (map_of ob)(k \<mapsto> v)"
  by (simp add: obj_put_def map_of_update_in_place map_of_insert_index map_of_snoc_fresh
           del: map_of_append)

lemma map_of_obj_assign: "map_of (obj_assign t s) = map_of t ++ map_of (rev s)"
proof (induction s arbitrary: t)
  case Nil
  then show ?case by (simp add: obj_assign_def)
next
  case (Cons x s)
  obtain k v where x: "x = (k, v)" by (cases x)
  have "obj_assign t (x # s) = obj_assign (obj_put t k v) s" by (simp add: obj_assign_def x)
  then have "map_of (obj_assign t (x # s)) = map_of (obj_put t k v) ++ map_of (rev s)"
    by (simp only: Cons.IH)
  also have "\<dots> = (map_of t)(k \<mapsto> v) ++ map_of (rev s)"
    by (simp only: map_of_obj_put)
  also have "\<dots> = map_of t ++ map_of (rev (x # s))"
    by (rule ext) (simp add: x map_add_def split: option.splits)
  finally show ?case .
qed

lemma map_of_rev_distinct: "distinct (map fst xs) \<Longrightarrow> map_of (rev xs) = map_of xs"
proof (induction xs)
  case Nil
  then show ?case by simp
next
  case (Cons x xs)
  obtain k v where x: "x = (k, v)" by (cases x)
  from Cons.prems x have n: "map_of xs k = None" by (simp add: map_of_eq_None_iff)
  from Cons have ih: "map_of (rev xs) = map_of xs" by simp
  show ?case
    by (rule ext) (simp add: x ih n map_add_def split: option.splits)
qed

lemma map_of_obj_spread2:
  assumes "distinct (map fst a)" "distinct (map fst b)"
  shows "map_of (obj_spread2 a b) k = (case map_of b k of Some v \<Rightarrow> Some v | None \<Rightarrow> map_of a k)"
  using assms
  by (simp add: obj_spread2_def map_of_obj_assign map_of_rev_distinct map_add_def
           del: map_of_append rev_rev_ident split: option.splits)

lemma setIfMissing_str_fww:
  "first_writer_wins (\<lambda>s. s = []) cur new (setIfMissing_str cur new)"
  by (auto simp: first_writer_wins_def populated_def setIfMissing_str_def split: option.splits)

lemma setIfMissing_val_fww:
  "first_writer_wins (\<lambda>_. False) cur new (setIfMissing_val cur new)"
  by (auto simp: first_writer_wins_def populated_def setIfMissing_val_def split: option.splits)

lemma merge_list_union: "union_dedup cur new (merge_list cur new)"
proof -
  have "\<And>ys. new = Some ys \<Longrightarrow>
      merge_list cur new = Some (unique_loop {} (list_or_empty cur @ ys))"
    by (simp add: merge_list_def uniqueArray_def list_or_empty_def)
  moreover have "new = None \<Longrightarrow> merge_list cur new = cur" by (simp add: merge_list_def)
  ultimately show ?thesis
    unfolding union_dedup_def
    using unique_loop_subseq[of "{}"] unique_loop_distinct[of "{}"] unique_loop_keys[of "{}"]
    by (metis Diff_empty option.distinct(1) option.inject)
qed

lemma merge_details:
  "details_merged cur new
     (case new of None \<Rightarrow> cur
      | Some ed \<Rightarrow> Some (obj_spread2 ed (case cur of None \<Rightarrow> [] | Some bd \<Rightarrow> bd)))"
  unfolding details_merged_def
  by (auto simp: map_of_obj_spread2 list_or_empty_def split: option.splits)

text \<open>
  Claim C1, as amended. Merging a partial into the accumulator: the text fields \<open>address\<close>,
  \<open>title\<close>, \<open>description\<close>, \<open>propertyType\<close> and \<open>agent\<close> are first writer wins with the
  empty string counting as unset; \<open>bedrooms\<close>, \<open>bathrooms\<close> and \<open>agentDetails\<close> are first
  writer wins; \<open>price\<close> is first writer wins where a price counts as unset when it is
  \<open>null\<close> or has neither a truthy amount nor a non-empty display text; \<open>images\<close>,
  \<open>floorplans\<close> and \<open>keyFeatures\<close> are, when the partial has the list, the cleaned elements
  of both lists in order, each once; \<open>details\<close> is merged key by key with the accumulator's
  keys winning; the other fields are the accumulator's. With \<open>A = {price: P1, images: [i1]}\<close>
  and \<open>B = {price: P2, images: [i2]}\<close> the result has \<open>price = P1\<close> and
  \<open>images = [i1, i2]\<close> when \<open>P1\<close> has a truthy amount or a display text and \<open>i1\<close>, \<open>i2\<close> are
  different clean texts.
\<close>

theorem mergePropertyData_rules:
  assumes "m = mergePropertyData base (Some extra)"
  shows
  "mergePropertyData base None = base \<and>
   first_writer_wins (\<lambda>s. s = []) (address base) (address extra) (address m) \<and>
   first_writer_wins (\<lambda>s. s = []) (title base) (title extra) (title m) \<and>
   first_writer_wins (\<lambda>s. s = []) (description base) (description extra) (description m) \<and>
   first_writer_wins (\<lambda>s. s = []) (propertyType base) (propertyType extra) (propertyType m) \<and>
   first_writer_wins (\<lambda>s. s = []) (agent base) (agent extra) (agent m) \<and>
   first_writer_wins (\<lambda>_. False) (bedrooms base) (bedrooms extra) (bedrooms m) \<and>
   first_writer_wins (\<lambda>_. False) (bathrooms base) (bathrooms extra) (bathrooms m) \<and>
   first_writer_wins (\<lambda>_. False) (agentDetails base) (agentDetails extra) (agentDetails m) \<and>
   first_writer_wins (\<lambda>q. \<not> amount_truthy (amount q) \<and> \<not> str_truthy (displayPrice q))
      (price base) (price extra) (price m) \<and>
   union_dedup (images base) (images extra) (images m) \<and>
   union_dedup (floorplans base) (floorplans extra) (floorplans m) \<and>
   union_dedup (keyFeatures base) (keyFeatures extra) (keyFeatures m) \<and>
   details_merged (details base) (details extra) (details m) \<and>
   propertyId m = propertyId base \<and> url m = url base \<and> card_image m = card_image base \<and>
   features m = features base \<and> isNewHome m = isNewHome base \<and>
   extractionMethod m = extractionMethod base \<and> scrapedAt m = scrapedAt base \<and>
   (\<forall>P1 P2 i1 i2.
      (amount_truthy (amount P1) \<or> str_truthy (displayPrice P1)) \<and>
      cleanText (Some i1) = Some i1 \<and> cleanText (Some i2) = Some i2 \<and> i1 \<noteq> i2 \<longrightarrow>
      price (mergePropertyData (empty_property\<lparr>price := Some P1, images := Some [Str i1]\<rparr>)
               (Some (empty_property\<lparr>price := Some P2, images := Some [Str i2]\<rparr>))) = Some P1 \<and>
      images (mergePropertyData (empty_property\<lparr>price := Some P1, images := Some [Str i1]\<rparr>)
               (Some (empty_property\<lparr>price := Some P2, images := Some [Str i2]\<rparr>)))
        = Some [Str i1, Str i2])"
proof -
  have ex: "\<forall>P1 P2 i1 i2.
      (amount_truthy (amount P1) \<or> str_truthy (displayPrice P1)) \<and>
      cleanText (Some i1) = Some i1 \<and> cleanText (Some i2) = Some i2 \<and> i1 \<noteq> i2 \<longrightarrow>
      price (mergePropertyData (empty_property\<lparr>price := Some P1, images := Some [Str i1]\<rparr>)
               (Some (empty_property\<lparr>price := Some P2, images := Some [Str i2]\<rparr>))) = Some P1 \<and>
      images (mergePropertyData (empty_property\<lparr>price := Some P1, images := Some [Str i1]\<rparr>)
               (Some (empty_property\<lparr>price := Some P2, images := Some [Str i2]\<rparr>)))
        = Some [Str i1, Str i2]"
  proof (intro allI impI, elim conjE)
    fix P1 P2 :: price and i1 i2 :: string
    assume h: "amount_truthy (amount P1) \<or> str_truthy (displayPrice P1)"
      "cleanText (Some i1) = Some i1" "cleanText (Some i2) = Some i2" "i1 \<noteq> i2"
    from h(2,3) have ne: "i1 \<noteq> []" "i2 \<noteq> []" using cleanText_empty by auto
    have pm: "\<not> price_missing (Some P1)" using h(1) by (simp add: price_missing_def)
    have ul: "unique_loop {} [Str i1, Str i2] = [Str i1, Str i2]" using h(2,3,4) ne by simp
    show "price (mergePropertyData (empty_property\<lparr>price := Some P1, images := Some [Str i1]\<rparr>)
               (Some (empty_property\<lparr>price := Some P2, images := Some [Str i2]\<rparr>))) = Some P1 \<and>
      images (mergePropertyData (empty_property\<lparr>price := Some P1, images := Some [Str i1]\<rparr>)
               (Some (empty_property\<lparr>price := Some P2, images := Some [Str i2]\<rparr>)))
        = Some [Str i1, Str i2]"
      using pm ul by (simp add: mergePropertyData_def merge_list_def uniqueArray_def)
  qed
  have p: "first_writer_wins (\<lambda>q. \<not> amount_truthy (amount q) \<and> \<not> str_truthy (displayPrice q))
      (price base) (price extra) (price m)"
    by (auto simp: assms mergePropertyData_def first_writer_wins_def populated_def price_missing_def
             split: option.splits)
  have d: "details_merged (details base) (details extra) (details m)"
    using merge_details[of "details base" "details extra"]
    by (simp add: assms mergePropertyData_def)
  have rest: "mergePropertyData base None = base \<and>
   first_writer_wins (\<lambda>s. s = []) (address base) (address extra) (address m) \<and>
   first_writer_wins (\<lambda>s. s = []) (title base) (title extra) (title m) \<and>
   first_writer_wins (\<lambda>s. s = []) (description base) (description extra) (description m) \<and>
   first_writer_wins (\<lambda>s. s = []) (propertyType base) (propertyType extra) (propertyType m) \<and>
   first_writer_wins (\<lambda>s. s = []) (agent base) (agent extra) (agent m) \<and>
   first_writer_wins (\<lambda>_. False) (bedrooms base) (bedrooms extra) (bedrooms m) \<and>
   first_writer_wins (\<lambda>_. False) (bathrooms base) (bathrooms extra) (bathrooms m) \<and>
   first_writer_wins (\<lambda>_. False) (agentDetails base) (agentDetails extra) (agentDetails m) \<and>
   union_dedup (images base) (images extra) (images m) \<and>
   union_dedup (floorplans base) (floorplans extra) (floorplans m) \<and>
   union_dedup (keyFeatures base) (keyFeatures extra) (keyFeatures m) \<and>
   propertyId m = propertyId base \<and> url m = url base \<and> card_image m = card_image base \<and>
   features m = features base \<and> isNewHome m = isNewHome base \<and>
   extractionMethod m = extractionMethod base \<and> scrapedAt m = scrapedAt base"
    by (simp add: assms mergePropertyData_def setIfMissing_str_fww setIfMissing_val_fww
        merge_list_union)
  from rest p d ex show ?thesis by blast
qed

theorem mergePropertyData_rules_witness:
  "address (mergePropertyData example_card (Some example_embedded)) = Some ''12 High Street, Leeds'' \<and>
   title (mergePropertyData example_card (Some example_embedded)) = Some ''3 bedroom house'' \<and>
   price (mergePropertyData example_card (Some example_embedded)) = price example_card \<and>
   bedrooms (mergePropertyData example_card (Some example_embedded)) = Some (Fin 3) \<and>
   (\<exists>md. details (mergePropertyData example_card (Some example_embedded)) = Some md \<and>
         map_of md ''Tenure'' = Some ''Freehold'' \<and> map_of md ''Council tax'' = Some ''Band B'') \<and>
   (\<exists>zs. images (mergePropertyData example_card (Some example_embedded)) = Some zs \<and>
         distinct (map item_key zs) \<and>
         set (map item_key zs) = {''https://media.example/1.jpg'', ''https://media.example/2.jpg''})"
proof -
  let ?m = "mergePropertyData example_card (Some example_embedded)"
  note r = mergePropertyData_rules[of ?m example_card example_embedded, OF refl]
  have c: "cleanText (Some ''https://media.example/1.jpg'') = Some ''https://media.example/1.jpg''"
    "cleanText (Some ''https://media.example/2.jpg'') = Some ''https://media.example/2.jpg''"
    by (simp_all add: cleanText_def trim_def char_defs)
  from r have "address ?m = Some ''12 High Street, Leeds''"
    by (simp add: first_writer_wins_def populated_def example_card_def example_embedded_def
        empty_property_def)
  moreover from r have "title ?m = Some ''3 bedroom house''"
    by (simp add: first_writer_wins_def populated_def example_card_def example_embedded_def
        empty_property_def)
  moreover from r have "price ?m = price example_card"
    by (simp add: first_writer_wins_def populated_def example_card_def example_embedded_def
        empty_property_def)
  moreover from r have "bedrooms ?m = Some (Fin 3)"
    by (simp add: first_writer_wins_def populated_def example_card_def example_embedded_def
        empty_property_def)
  moreover from r have "details_merged (details example_card) (details example_embedded) (details ?m)"
    by blast
  then obtain md where md: "details ?m = Some md"
      "\<forall>k. map_of md k =
            (case map_of [(''Tenure'', ''Freehold'')] k of
               Some v \<Rightarrow> Some v
             | None \<Rightarrow> map_of [(''Tenure'', ''Leasehold''), (''Council tax'', ''Band B'')] k)"
    by (auto simp add: details_merged_def list_or_empty_def example_card_def example_embedded_def
        empty_property_def)
  from md(2)[rule_format, of "''Tenure''"] md(2)[rule_format, of "''Council tax''"] md(1)
  have "\<exists>md. details ?m = Some md \<and>
         map_of md ''Tenure'' = Some ''Freehold'' \<and> map_of md ''Council tax'' = Some ''Band B''"
    by simp
  moreover from r have "union_dedup (images example_card) (images example_embedded) (images ?m)"
    by blast
  then have "\<exists>zs. images ?m = Some zs \<and> distinct (map item_key zs) \<and>
         set (map item_key zs) = {''https://media.example/1.jpg'', ''https://media.example/2.jpg''}"
    using c
    by (auto simp add: union_dedup_def list_or_empty_def example_card_def example_embedded_def
        empty_property_def)
  ultimately show ?thesis by blast
qed

text \<open>Claim C1 as stated fails: an accumulator price that is an object without amount and
  display text (what the linked-data pass stores for an offer without a price) is
  replaced by the price of the later partial.\<close>

theorem mergePropertyData_price_counterexample:
  "price (mergePropertyData
      (empty_property\<lparr>price := Some \<lparr>amount = ANull, currency = Some ''GBP'', displayPrice = None\<rparr>,
                       images := Some [Str ''https://media.example/1.jpg'']\<rparr>)
      (Some (empty_property\<lparr>price := Some \<lparr>amount = ANum (Fin 450000), currency = Some ''GBP'',
                                            displayPrice = None\<rparr>,
                             images := Some [Str ''https://media.example/2.jpg'']\<rparr>)))
   = Some \<lparr>amount = ANum (Fin 450000), currency = Some ''GBP'', displayPrice = None\<rparr> \<and>
   Some \<lparr>amount = ANum (Fin 450000), currency = Some ''GBP'', displayPrice = None\<rparr>
     \<noteq> Some \<lparr>amount = ANull, currency = Some ''GBP'', displayPrice = None\<rparr>"
  by (simp add: mergePropertyData_def price_missing_def str_truthy_def empty_property_def)

subsection \<open>normalizeProperty\<close>

lemmas norm_defs = normalizeProperty_def normalize_urls_def normalize_texts_def clean_agentDetails_def
  clean_details_def normalize_price_def or_empty_def uniqueArray_def empty_property_def str_truthy_def

lemmas number_defs = StringToNumber_def signed_decimal_def unsigned_decimal_def exponent_part_def
  to_number_def radix_literal_def trim_def

lemma clean_example_texts:
  "cleanText (Some ''12 High Street, Leeds'') = Some ''12 High Street, Leeds''"
  "cleanText (Some ''3 bedroom house'') = Some ''3 bedroom house''"
  "cleanText (Some ''POA'') = Some ''POA''"
  by (simp_all add: cleanText_def trim_def char_defs)

lemma infer_example: "inferPropertyType (Some ''3 bedroom house  12 High Street, Leeds'') = Some ''House''"
  by (simp add: type_defs char_defs)

lemma number_POA: "StringToNumber ''POA'' = NaN"
  by (simp add: number_defs char_defs)

text \<open>
  Claim C7. \<open>cleanText\<close> is idempotent (\<open>cleanText_idem\<close> above). \<open>normalizeProperty\<close> is not:
  an amount that does not convert to a finite number becomes \<open>null\<close>, and \<open>Number(null)\<close>
  is \<open>0\<close>, so a second normalisation turns the \<open>null\<close> into \<open>0\<close>.
\<close>

theorem normalizeProperty_not_idempotent:
  "normalizeProperty poa_listing = Inr (poa_listing_once\<lparr>propertyType := Some ''House''\<rparr>) \<and>
   normalizeProperty (poa_listing_once\<lparr>propertyType := Some ''House''\<rparr>)
     = Inr (poa_listing_twice\<lparr>propertyType := Some ''House''\<rparr>) \<and>
   poa_listing_twice\<lparr>propertyType := Some ''House''\<rparr> \<noteq> poa_listing_once\<lparr>propertyType := Some ''House''\<rparr>"
proof -
  have c: "cleanText None = None" "cleanText (Some ''House'') = Some ''House''"
    by (simp_all add: cleanText_def trim_def char_defs)
  have a: "normalizeProperty poa_listing = Inr (poa_listing_once\<lparr>propertyType := Some ''House''\<rparr>)"
    by (simp add: poa_listing_def poa_listing_once_def norm_defs clean_example_texts c
        infer_example number_POA)
  have b: "normalizeProperty (poa_listing_once\<lparr>propertyType := Some ''House''\<rparr>)
     = Inr (poa_listing_twice\<lparr>propertyType := Some ''House''\<rparr>)"
    by (simp add: poa_listing_def poa_listing_once_def poa_listing_twice_def norm_defs
        clean_example_texts c)
  have d: "poa_listing_twice\<lparr>propertyType := Some ''House''\<rparr> \<noteq> poa_listing_once\<lparr>propertyType := Some ''House''\<rparr>"
    by (simp add: poa_listing_def poa_listing_once_def poa_listing_twice_def empty_property_def)
  from a b d show ?thesis by blast
qed

subsection \<open>Detail pages: the value of extractionMethod\<close>


































subsection \<open>The set of listing links\<close>

lemma mset_concat_remove1:
  "t \<in> set ts \<Longrightarrow> mset (concat (map g (remove1 t ts))) + mset (g t) = mset (concat (map g ts))"
  by (induction ts) auto

lemma card_loop_urls:
  "card_loop r props urls cards = (props', urls') \<Longrightarrow>
   \<exists>ps. props' = props @ ps \<and> urls' = urls @ card_links ps \<and> distinct (card_links ps) \<and>
        set (card_links ps) \<inter> set urls = {}"
proof (induction cards arbitrary: props urls)
  case Nil
  then show ?case by (simp add: card_links_def)
next
  case (Cons c cs)
  show ?case
  proof (cases "of_nat (length props) \<ge> r")
    case True
    with Cons.prems show ?thesis by (simp add: card_links_def)
  next
    case more: False
    show ?thesis
    proof (cases c)
      case None
      with more Cons.prems have "card_loop r props urls cs = (props', urls')" by simp
      from Cons.IH[OF this] show ?thesis .
    next
      case (Some p)
      show ?thesis
      proof (cases "\<not> str_truthy (url p) \<or> or_empty (url p) \<in> set urls")
        case True
        with more Some Cons.prems have "card_loop r props urls cs = (props', urls')" by auto
        from Cons.IH[OF this] show ?thesis .
      next
        case False
        with more Some Cons.prems
        have "card_loop r (props @ [p]) (urls @ [or_empty (url p)]) cs = (props', urls')" by auto
        from Cons.IH[OF this] obtain ps where
          ps: "props' = (props @ [p]) @ ps" "urls' = (urls @ [or_empty (url p)]) @ card_links ps"
            "distinct (card_links ps)" "set (card_links ps) \<inter> set (urls @ [or_empty (url p)]) = {}"
          by blast
        have "props' = props @ (p # ps) \<and> urls' = urls @ card_links (p # ps) \<and>
              distinct (card_links (p # ps)) \<and> set (card_links (p # ps)) \<inter> set urls = {}"
          using ps False by (auto simp: card_links_def)
        then show ?thesis by blast
      qed
    qed
  qed
qed

lemma detail_links_append [simp]: "detail_links (xs @ ys) = detail_links xs @ detail_links ys"
  by (simp add: detail_links_def)

lemma list_pages_append [simp]: "list_pages (xs @ ys) = list_pages xs @ list_pages ys"
  by (simp add: list_pages_def)

lemma detail_links_single [simp]:
  "detail_links [ListRequest u n] = []" "detail_links [DetailRequest link b] = [link]"
  by (simp_all add: detail_links_def)

lemma list_pages_single [simp]:
  "list_pages [ListRequest u n] = [n]" "list_pages [DetailRequest link b] = []"
  by (simp_all add: list_pages_def)

lemma paginate_frame:
  "claimed (paginate cfg s n pg) = claimed s \<and> propertyUrls (paginate cfg s n pg) = propertyUrls s"
  by (simp add: paginate_def claimed_def addRequests_def Let_def split: option.splits)

lemma queue_loop_frame:
  "claimed (queue_loop cfg s props n pg) \<subseteq># claimed s + mset (card_links props) \<and>
   propertyUrls (queue_loop cfg s props n pg) = propertyUrls s"
proof (cases props)
  case Nil
  then show ?thesis by (simp add: queue_loop_def paginate_frame)
next
  case (Cons p rest)
  show ?thesis
  proof (cases "of_nat (propertiesQueued s) \<ge> maxResults cfg")
    case True
    with Cons show ?thesis by (simp add: queue_loop_def paginate_frame)
  next
    case False
    with Cons show ?thesis
      by (simp add: queue_loop_def claimed_def addRequests_def card_links_def)
  qed
qed

lemma store_loop_frame:
  "claimed (fst (store_loop cfg now s props)) = claimed s \<and>
   propertyUrls (fst (store_loop cfg now s props)) = propertyUrls s \<and>
   added (fst (store_loop cfg now s props)) = added s \<and>
   tasks (fst (store_loop cfg now s props)) = tasks s \<and>
   pending (fst (store_loop cfg now s props)) = pending s \<and>
   pagesProcessed (fst (store_loop cfg now s props)) = pagesProcessed s"
proof (induction props arbitrary: s)
  case Nil
  show ?case by simp
next
  case (Cons p rest)
  show ?case
  proof (cases "normalizeProperty (p\<lparr>scrapedAt := Some now, extractionMethod := Some ''basic-card''\<rparr>)")
    case (Inl e)
    then show ?thesis by simp
  next
    case (Inr np)
    then show ?thesis
      using Cons.IH[of "s\<lparr>propertyDataBatch := propertyDataBatch s @ [np],
                    propertiesStored := propertiesStored s + 1\<rparr>"]
      by (simp add: claimed_def)
  qed
qed

lemma claimed_cong: "added s' = added s \<Longrightarrow> tasks s' = tasks s \<Longrightarrow> claimed s' = claimed s"
  by (simp add: claimed_def)

lemma dedup_extend:
  assumes "dedup_inv s" and "propertyUrls s' = propertyUrls s @ new" and "distinct new"
    and "set new \<inter> set (propertyUrls s) = {}" and "claimed s' \<subseteq># claimed s + mset new"
  shows "dedup_inv s'"
proof -
  from assms(1) have "claimed s + mset new \<subseteq># mset (propertyUrls s) + mset new"
    by (simp add: dedup_inv_def)
  with assms(5) have "claimed s' \<subseteq># mset (propertyUrls s')"
    using assms(2) by (metis mset_append subset_mset.order_trans)
  moreover have "distinct (propertyUrls s')" using assms by (auto simp: dedup_inv_def)
  ultimately show ?thesis by (simp add: dedup_inv_def)
qed

lemma dedup_same:
  assumes "dedup_inv s" and "propertyUrls s' = propertyUrls s" and "claimed s' \<subseteq># claimed s"
  shows "dedup_inv s'"
  using dedup_extend[of s s' "[]"] assms by simp

lemma list_handler_dedup:
  assumes "dedup_inv s"
  shows "dedup_inv (list_handler cfg s u n pg now)"
proof -
  let ?s = "take_request s (ListRequest u n)"
  let ?s1 = "?s\<lparr>pagesProcessed := max (pagesProcessed ?s) (if n \<noteq> 0 then n else 1)\<rparr>"
  let ?remaining = "maxResults cfg - of_nat (counted cfg ?s1)"
  have s1: "claimed ?s1 = claimed s" "propertyUrls ?s1 = propertyUrls s"
    by (simp_all add: claimed_def take_request_def)
  show ?thesis
  proof (cases "?remaining \<le> 0")
    case True
    then have "list_handler cfg s u n pg now = ?s1" by (simp add: list_handler_def Let_def)
    with s1 assms show ?thesis by (simp add: dedup_same)
  next
    case False
    obtain props urls where cl: "card_loop ?remaining [] (propertyUrls ?s1) (lp_cards pg) = (props, urls)"
      by (cases "card_loop ?remaining [] (propertyUrls ?s1) (lp_cards pg)") blast
    from card_loop_urls[OF cl] have u: "urls = propertyUrls s @ card_links props"
      "distinct (card_links props)" "set (card_links props) \<inter> set (propertyUrls s) = {}"
      by (auto simp: take_request_def)
    let ?s2 = "?s1\<lparr>propertyUrls := urls\<rparr>"
    have s2: "claimed ?s2 = claimed s" "propertyUrls ?s2 = propertyUrls s @ card_links props"
      using u by (simp_all add: claimed_def take_request_def)
    show ?thesis
    proof (cases "collectDetails cfg")
      case True
      with False cl have e: "list_handler cfg s u n pg now = queue_loop cfg ?s2 props n pg"
        by (simp add: list_handler_def Let_def)
      show ?thesis
        using queue_loop_frame[of cfg ?s2 props n pg] s2 u
        by (intro dedup_extend[OF assms, of _ "card_links props"]) (simp_all add: e)
    next
      case basic: False
      obtain s3 raised where st: "store_loop cfg now ?s2 props = (s3, raised)"
        by (cases "store_loop cfg now ?s2 props") blast
      from store_loop_frame[of cfg now ?s2 props] st s2
      have s3: "claimed s3 = claimed s" "propertyUrls s3 = propertyUrls s @ card_links props"
        by simp_all
      have "list_handler cfg s u n pg now =
              (if raised then s3\<lparr>pending := pending s\<rparr>
               else if length (propertyDataBatch s3) \<ge> DATASET_BATCH_SIZE
                    then flush_start s3 (Some (n, pg)) else paginate cfg s3 n pg)"
        using False cl basic st by (simp add: list_handler_def Let_def)
      moreover have "claimed (s3\<lparr>pending := pending s\<rparr>) = claimed s3"
        "claimed (flush_start s3 (Some (n, pg))) = claimed s3"
        "claimed (paginate cfg s3 n pg) = claimed s3"
        "propertyUrls (flush_start s3 (Some (n, pg))) = propertyUrls s3"
        "propertyUrls (paginate cfg s3 n pg) = propertyUrls s3"
        by (simp_all add: claimed_def flush_start_def paginate_frame[unfolded claimed_def])
      ultimately show ?thesis
        using s3 u
        by (intro dedup_extend[OF assms, of _ "card_links props"]) (simp_all split: if_splits)
    qed
  qed
qed

lemma detail_handler_dedup:
  assumes "dedup_inv s"
  shows "dedup_inv (detail_handler s link b pg)"
proof (cases "detail_record link b pg")
  case (Inl e)
  with assms show ?thesis by (simp add: detail_handler_def)
next
  case (Inr r)
  then have "claimed (detail_handler s link b pg) = claimed s \<and>
             propertyUrls (detail_handler s link b pg) = propertyUrls s"
    by (simp add: detail_handler_def Let_def claimed_def flush_start_def take_request_def)
  with assms show ?thesis by (simp add: dedup_same)
qed

lemma resume_add_dedup:
  assumes "dedup_inv s" and "AwaitAdd rest n pg \<in> set (tasks s)"
  shows "dedup_inv (resume_add cfg (s\<lparr>tasks := remove1 (AwaitAdd rest n pg) (tasks s)\<rparr>) rest n pg)"
proof -
  let ?s' = "s\<lparr>tasks := remove1 (AwaitAdd rest n pg) (tasks s), propertiesQueued := propertiesQueued s + 1\<rparr>"
  have "claimed ?s' + mset (card_links rest) = claimed s"
    using mset_concat_remove1[OF assms(2), of task_links] by (simp add: claimed_def)
  moreover have "propertyUrls ?s' = propertyUrls s" by simp
  moreover note queue_loop_frame[of cfg ?s' rest n pg]
  ultimately show ?thesis
    using assms(1) by (intro dedup_same[OF assms(1)]) (simp_all add: resume_add_def)
qed

lemma resume_flush_dedup:
  assumes "dedup_inv s" and "AwaitFlush k \<in> set (tasks s)"
  shows "dedup_inv (resume_flush cfg (s\<lparr>tasks := remove1 (AwaitFlush k) (tasks s)\<rparr>) k)"
proof -
  let ?s' = "s\<lparr>tasks := remove1 (AwaitFlush k) (tasks s), propertyDataBatch := []\<rparr>"
  have c: "claimed ?s' = claimed s" "propertyUrls ?s' = propertyUrls s"
    using mset_concat_remove1[OF assms(2), of task_links] by (simp_all add: claimed_def)
  have "claimed (resume_flush cfg (s\<lparr>tasks := remove1 (AwaitFlush k) (tasks s)\<rparr>) k) = claimed s \<and>
        propertyUrls (resume_flush cfg (s\<lparr>tasks := remove1 (AwaitFlush k) (tasks s)\<rparr>) k) = propertyUrls s"
  proof (cases k)
    case None
    with c show ?thesis by (simp add: resume_flush_def)
  next
    case (Some np)
    obtain n pg where np: "np = (n, pg)" by (cases np) blast
    from c paginate_frame[of cfg ?s' n pg] show ?thesis by (simp add: resume_flush_def Some np)
  qed
  with assms(1) show ?thesis by (simp add: dedup_same)
qed

lemma crawl_step_dedup:
  assumes "crawl_step cfg s s'" and "dedup_inv s"
  shows "dedup_inv s'"
  using assms
proof (cases rule: crawl_step.cases)
  case (list_begin u n pg now)
  with assms(2) show ?thesis by (simp add: list_handler_dedup)
next
  case (detail_begin link b dpg)
  with assms(2) show ?thesis by (simp add: detail_handler_dedup)
next
  case (add_resumes rest n pg)
  with assms(2) show ?thesis by (simp add: resume_add_dedup)
next
  case (flush_resumes k)
  with assms(2) show ?thesis by (simp add: resume_flush_dedup)
next
  case (request_fails r)
  then have "claimed s' = claimed s" "propertyUrls s' = propertyUrls s"
    by (simp_all add: take_request_def claimed_def)
  with assms(2) show ?thesis by (simp add: dedup_same)
qed

lemma reachable_dedup: "reachable cfg searchUrl s \<Longrightarrow> dedup_inv s"
proof (induction rule: reachable.induct)
  case start
  show ?case by (simp add: dedup_inv_def claimed_def initial_state_def)
next
  case (step s s')
  then show ?case by (simp add: crawl_step_dedup)
qed

lemma distinct_of_mset_subset:
  assumes "mset xs \<subseteq># mset ys" and "distinct ys"
  shows "distinct xs \<and> set xs \<subseteq> set ys"
proof -
  from assms(1) obtain C where "mset ys = mset xs + C"
    by (auto simp: mset_subset_eq_exists_conv)
  moreover obtain zs where "mset zs = C" using ex_mset by blast
  ultimately have e: "mset ys = mset (xs @ zs)" by simp
  from mset_eq_imp_distinct_iff[OF e] assms(2) have "distinct xs" by simp
  moreover have "set xs \<subseteq> set ys" using mset_eq_setD[OF e] by auto
  ultimately show ?thesis by simp
qed

text \<open>
  Claim C4. In every state a run can reach, under any interleaving of the handlers, the
  links given to \<^verbatim>\<open>crawler.addRequests\<close> for a detail fetch are pairwise different
  and all in the set \<open>propertyUrls\<close>, and the count of unique listings in the run
  summary is the size of that set.
\<close>

theorem detail_requests_unique:
  assumes "reachable cfg searchUrl s"
  shows "distinct (detail_links (added s)) \<and>
         set (detail_links (added s)) \<subseteq> set (propertyUrls s) \<and>
         distinct (propertyUrls s) \<and>
         sum_uniqueProperties (snd (finish s)) = card (set (propertyUrls s))"
proof -
  from reachable_dedup[OF assms] have i: "claimed s \<subseteq># mset (propertyUrls s)" "distinct (propertyUrls s)"
    by (simp_all add: dedup_inv_def)
  have "mset (detail_links (added s)) \<subseteq># claimed s" by (simp add: claimed_def)
  from this i(1) have "mset (detail_links (added s)) \<subseteq># mset (propertyUrls s)"
    by (rule subset_mset.order_trans)
  from distinct_of_mset_subset[OF this i(2)] i(2) show ?thesis
    by (simp add: finish_def distinct_card)
qed

lemma first_page_reachable:
  "reachable cfg u (list_handler cfg (initial_state u) (Href u) 1 pg now)"
  by (rule reachable.step[OF reachable.start], rule crawl_step.list_begin)
     (simp add: initial_state_def)

lemma after_twin_page_eval:
  "added after_twin_page =
     [ListRequest (Href example_search) 1,
      DetailRequest ''https://www.rightmove.co.uk/properties/162532097'' bare_card]"
  "propertyUrls after_twin_page = [''https://www.rightmove.co.uk/properties/162532097'']"
  "tasks after_twin_page = [AwaitAdd [] 1 twin_list_page]"
  by (simp_all add: after_twin_page_def list_handler_def take_request_def initial_state_def
        example_config_def twin_list_page_def counted_def queue_loop_def addRequests_def Let_def
        bare_card_def empty_property_def str_truthy_def or_empty_def)

theorem detail_requests_unique_witness:
  "reachable example_config example_search after_twin_page \<and>
   lp_cards twin_list_page = [Some bare_card, None, Some bare_card] \<and>
   detail_links (added after_twin_page) = [''https://www.rightmove.co.uk/properties/162532097''] \<and>
   distinct (detail_links (added after_twin_page)) \<and>
   set (detail_links (added after_twin_page)) \<subseteq> set (propertyUrls after_twin_page) \<and>
   distinct (propertyUrls after_twin_page) \<and>
   sum_uniqueProperties (snd (finish after_twin_page)) = card (set (propertyUrls after_twin_page))"
proof -
  have r: "reachable example_config example_search after_twin_page"
    unfolding after_twin_page_def by (rule first_page_reachable)
  have c: "lp_cards twin_list_page = [Some bare_card, None, Some bare_card]"
    by (simp add: twin_list_page_def)
  have d: "detail_links (added after_twin_page) = [''https://www.rightmove.co.uk/properties/162532097'']"
    by (simp add: after_twin_page_eval detail_links_def)
  from detail_requests_unique[OF r] r c d show ?thesis by blast
qed

subsection \<open>Pagination\<close>

lemma ensureAbsoluteUrl_truthy:
  "str_truthy x \<Longrightarrow> \<exists>t. ensureAbsoluteUrl x = Some t \<and> t \<noteq> []"
  by (cases x) (auto simp: str_truthy_def ensureAbsoluteUrl_def BASE_URL_def)

lemma next_from_controls_truthy:
  "next_from_controls u controls = Some r \<Longrightarrow> url_truthy r"
proof (induction u controls rule: next_from_controls.induct)
  case (1 u)
  then show ?case by simp
next
  case (2 u rest)
  then show ?case by simp
next
  case (3 u c rest)
  show ?case
  proof (cases "str_truthy (nc_href c)")
    case True
    with ensureAbsoluteUrl_truthy[OF True] "3.prems" show ?thesis by (auto simp: url_of_def)
  next
    case h: False
    show ?thesis
    proof (cases "str_truthy (nc_dataUrl c)")
      case True
      with h ensureAbsoluteUrl_truthy[OF True] "3.prems" show ?thesis by (auto simp: url_of_def)
    next
      case d: False
      show ?thesis
      proof (cases "str_truthy (nc_dataPage c)")
        case True
        with h d "3.prems" show ?thesis by (auto split: jsnum.splits)
      next
        case False
        with h d 3 show ?thesis by simp
      qed
    qed
  qed
qed

lemma findNextPageUrl_truthy: "url_truthy (findNextPageUrl controls u n)"
  by (cases "next_from_controls u controls")
     (simp_all add: findNextPageUrl_def next_fallback_def Let_def next_from_controls_truthy)

lemma findNextPageUrl_Some: "\<exists>nextUrl. findNextPageUrl controls u n = Some nextUrl"
  using findNextPageUrl_truthy[of controls u n] by (cases "findNextPageUrl controls u n") simp_all

lemma paginate_eq:
  assumes "findNextPageUrl (lp_controls pg) (lp_url pg) (page_or n (pagesProcessed s)) = Some nextUrl"
  shows "paginate cfg s n pg =
     (if of_nat (counted cfg s) < maxResults cfg \<and> of_nat (pagesProcessed s) < maxPages cfg
      then addRequests s (ListRequest nextUrl (page_or n (pagesProcessed s) + 1)) else s)"
  using assms findNextPageUrl_truthy[of "lp_controls pg" "lp_url pg" "page_or n (pagesProcessed s)"]
  by (simp add: paginate_def Let_def)

lemma single_token: "A + {#n#} \<subseteq># {#k#} \<Longrightarrow> n = k \<and> A = {#}"
  by (metis add_mset_add_single add_mset_subseteq_single_iff)

lemma tokens_take:
  "r \<in> set (pending s) \<Longrightarrow> tokens (take_request s r) + mset (request_page r) = tokens s"
  using mset_concat_remove1[of r "pending s" request_page]
  by (simp add: tokens_def take_request_def list_pages_def)

lemma tokens_untask:
  "t \<in> set (tasks s) \<Longrightarrow> tokens (s\<lparr>tasks := remove1 t (tasks s)\<rparr>) + mset (task_page t) = tokens s"
  using mset_concat_remove1[of t "tasks s" task_page]
  by (simp add: tokens_def)

lemma tokens_empty_tasks: "tokens s = {#} \<Longrightarrow> concat (map task_page (tasks s)) = []"
  by (simp add: tokens_def)

lemma hold_inv: "holds_page cfg k s \<Longrightarrow> page_inv cfg k s"
  by (simp add: holds_page_def page_inv_def tokens_empty_tasks)

lemma upt_Suc_snoc: "1 \<le> k \<Longrightarrow> [1..<Suc k] @ [Suc k] = [1..<Suc (Suc k)]"
  by simp

lemma paginate_page:
  assumes "holds_page cfg k s"
  shows "\<exists>k'. page_inv cfg k' (paginate cfg s k pg)"
proof -
  obtain nextUrl where n: "findNextPageUrl (lp_controls pg) (lp_url pg) (page_or k (pagesProcessed s)) = Some nextUrl"
    using findNextPageUrl_Some by blast
  note e = paginate_eq[OF n, of cfg]
  show ?thesis
  proof (cases "of_nat (counted cfg s) < maxResults cfg \<and> of_nat (pagesProcessed s) < maxPages cfg")
    case False
    with e have "paginate cfg s k pg = s" by simp
    with hold_inv[OF assms] show ?thesis by auto
  next
    case True
    with e have p: "paginate cfg s k pg = addRequests s (ListRequest nextUrl (Suc k))"
      using assms by (simp add: holds_page_def page_or_def)
    from True assms have lt: "of_nat k < maxPages cfg" by (simp add: holds_page_def)
    have "page_inv cfg (Suc k) (addRequests s (ListRequest nextUrl (Suc k)))"
      using assms lt
      by (simp add: holds_page_def page_inv_def addRequests_def tokens_def)
    with p show ?thesis by auto
  qed
qed

lemma queue_loop_page:
  assumes "holds_page cfg k s"
  shows "\<exists>k'. page_inv cfg k' (queue_loop cfg s props k pg)"
proof (cases props)
  case Nil
  with paginate_page[OF assms] show ?thesis by (simp add: queue_loop_def)
next
  case (Cons p rest)
  show ?thesis
  proof (cases "of_nat (propertiesQueued s) \<ge> maxResults cfg")
    case True
    with Cons paginate_page[OF assms] show ?thesis by (simp add: queue_loop_def)
  next
    case False
    have "page_inv cfg k ((addRequests s (DetailRequest (or_empty (url p)) p))
                 \<lparr>tasks := tasks s @ [AwaitAdd rest k pg]\<rparr>)"
      using assms by (simp add: holds_page_def page_inv_def addRequests_def tokens_def)
    with Cons False show ?thesis by (auto simp: queue_loop_def)
  qed
qed

lemma holds_page_cong:
  assumes "holds_page cfg k s" and "added s' = added s" and "pending s' = pending s"
    and "tasks s' = tasks s" and "pagesProcessed s' = pagesProcessed s"
  shows "holds_page cfg k s'"
  using assms by (simp add: holds_page_def tokens_def)

lemma page_inv_cong:
  assumes "page_inv cfg k s" and "added s' = added s" and "pending s' = pending s"
    and "tasks s' = tasks s" and "pagesProcessed s' = pagesProcessed s"
  shows "page_inv cfg k s'"
  using assms by (simp add: page_inv_def tokens_def)

lemma take_holds:
  assumes "page_inv cfg k s" and "tokens s' + {#n#} = tokens s" and "added s' = added s"
    and "pagesProcessed s' = max (pagesProcessed s) n"
  shows "n = k \<and> holds_page cfg k s'"
proof -
  from assms(1,2) have "tokens s' + {#n#} \<subseteq># {#k#}" by (simp add: page_inv_def)
  from single_token[OF this] have "n = k" "tokens s' = {#}" by simp_all
  with assms show ?thesis by (auto simp: page_inv_def holds_page_def)
qed

lemma list_handler_page:
  assumes "page_inv cfg k s" and "ListRequest u n \<in> set (pending s)"
  shows "\<exists>k'. page_inv cfg k' (list_handler cfg s u n pg now)"
proof -
  let ?s = "take_request s (ListRequest u n)"
  let ?s1 = "?s\<lparr>pagesProcessed := max (pagesProcessed ?s) (if n \<noteq> 0 then n else 1)\<rparr>"
  let ?remaining = "maxResults cfg - of_nat (counted cfg ?s1)"
  have t: "tokens ?s1 + {#n#} = tokens s"
    using tokens_take[OF assms(2)] by (simp add: tokens_def take_request_def)
  from assms(1) t have "tokens ?s1 + {#n#} \<subseteq># {#k#}" by (simp add: page_inv_def)
  note st = single_token[OF this]
  from st have nk: "n = k" by (rule conjunct1)
  from st have e: "tokens ?s1 = {#}" by (rule conjunct2)
  from assms(1) have k1: "1 \<le> k" by (simp add: page_inv_def)
  have h1: "holds_page cfg k ?s1"
    using assms(1) e nk k1 by (auto simp: page_inv_def holds_page_def take_request_def)
  show ?thesis
  proof (cases "?remaining \<le> 0")
    case True
    then have "list_handler cfg s u n pg now = ?s1" by (simp add: list_handler_def Let_def)
    with hold_inv[OF h1] show ?thesis by auto
  next
    case False
    obtain props urls where cl: "card_loop ?remaining [] (propertyUrls ?s1) (lp_cards pg) = (props, urls)"
      by (cases "card_loop ?remaining [] (propertyUrls ?s1) (lp_cards pg)") blast
    let ?s2 = "?s1\<lparr>propertyUrls := urls\<rparr>"
    have h2: "holds_page cfg k ?s2" by (rule holds_page_cong[OF h1]) simp_all
    show ?thesis
    proof (cases "collectDetails cfg")
      case True
      with False cl have "list_handler cfg s u n pg now = queue_loop cfg ?s2 props n pg"
        by (simp add: list_handler_def Let_def)
      with queue_loop_page[OF h2, of props pg] nk show ?thesis by simp
    next
      case basic: False
      obtain s3 raised where st: "store_loop cfg now ?s2 props = (s3, raised)"
        by (cases "store_loop cfg now ?s2 props") blast
      from store_loop_frame[of cfg now ?s2 props] st
      have f: "added s3 = added ?s2" "pending s3 = pending ?s2" "tasks s3 = tasks ?s2"
        "pagesProcessed s3 = pagesProcessed ?s2" by simp_all
      have h3: "holds_page cfg k s3" by (rule holds_page_cong[OF h2 f])
      have r: "list_handler cfg s u n pg now =
              (if raised then s3\<lparr>pending := pending s\<rparr>
               else if length (propertyDataBatch s3) \<ge> DATASET_BATCH_SIZE
                    then flush_start s3 (Some (n, pg)) else paginate cfg s3 n pg)"
        using False cl basic st by (simp add: list_handler_def Let_def)
      have a: "page_inv cfg k (s3\<lparr>pending := pending s\<rparr>)"
      proof -
        have "tokens (s3\<lparr>pending := pending s\<rparr>) = tokens s"
          using f by (simp add: tokens_def take_request_def)
        moreover have "tasks s3 = tasks s" using f by (simp add: take_request_def)
        ultimately show ?thesis using assms(1) h3 by (fastforce simp: page_inv_def holds_page_def)
      qed
      have b: "page_inv cfg k (flush_start s3 (Some (n, pg)))"
        using h3 nk by (simp add: page_inv_def holds_page_def flush_start_def tokens_def)
      from paginate_page[OF h3, of pg] nk obtain k' where c: "page_inv cfg k' (paginate cfg s3 n pg)"
        by auto
      from r a b c show ?thesis by (auto split: if_splits)
    qed
  qed
qed

lemma detail_handler_page:
  assumes "page_inv cfg k s"
  shows "page_inv cfg k (detail_handler s link b pg)"
proof (cases "detail_record link b pg")
  case (Inl e)
  with assms show ?thesis by (simp add: detail_handler_def)
next
  case (Inr r)
  have "mset (list_pages (remove1 (DetailRequest link b) (pending s))) \<subseteq># mset (list_pages (pending s))"
  proof (cases "DetailRequest link b \<in> set (pending s)")
    case True
    from mset_concat_remove1[OF True, of request_page] show ?thesis by (simp add: list_pages_def)
  next
    case False
    then show ?thesis by (simp add: remove1_idem)
  qed
  then have "tokens (detail_handler s link b pg) \<subseteq># tokens s"
    using Inr by (simp add: detail_handler_def Let_def flush_start_def take_request_def tokens_def)
  moreover have "added (detail_handler s link b pg) = added s"
    "pagesProcessed (detail_handler s link b pg) = pagesProcessed s"
    "concat (map task_page (tasks (detail_handler s link b pg))) = concat (map task_page (tasks s))"
    using Inr by (simp_all add: detail_handler_def Let_def flush_start_def take_request_def)
  ultimately show ?thesis
    using assms by (auto simp: page_inv_def intro: subset_mset.order_trans)
qed

lemma resume_add_page:
  assumes "page_inv cfg k s" and "AwaitAdd rest n pg \<in> set (tasks s)"
  shows "\<exists>k'. page_inv cfg k' (resume_add cfg (s\<lparr>tasks := remove1 (AwaitAdd rest n pg) (tasks s)\<rparr>) rest n pg)"
proof -
  let ?s' = "s\<lparr>tasks := remove1 (AwaitAdd rest n pg) (tasks s), propertiesQueued := propertiesQueued s + 1\<rparr>"
  have t: "tokens ?s' + {#n#} = tokens s"
    using tokens_untask[OF assms(2)] by (simp add: tokens_def)
  from assms(1) t have "tokens ?s' + {#n#} \<subseteq># {#k#}" by (simp add: page_inv_def)
  note st = single_token[OF this]
  from st have nk: "n = k" by (rule conjunct1)
  from st have e: "tokens ?s' = {#}" by (rule conjunct2)
  from assms have "n \<le> pagesProcessed s" by (force simp: page_inv_def)
  with assms(1) nk have pp: "pagesProcessed s = k" by (simp add: page_inv_def)
  have h: "holds_page cfg k ?s'"
    using assms(1) e pp by (simp add: page_inv_def holds_page_def)
  from queue_loop_page[OF h, of rest pg] nk show ?thesis by (simp add: resume_add_def)
qed

lemma concat_remove1_subset: "set (concat (map g (remove1 t ts))) \<subseteq> set (concat (map g ts))"
  using set_remove1_subset[of t ts] by fastforce

lemma resume_flush_page:
  assumes "page_inv cfg k s" and "AwaitFlush c \<in> set (tasks s)"
  shows "\<exists>k'. page_inv cfg k' (resume_flush cfg (s\<lparr>tasks := remove1 (AwaitFlush c) (tasks s)\<rparr>) c)"
proof (cases c)
  case None
  let ?s' = "s\<lparr>tasks := remove1 (AwaitFlush None) (tasks s), propertyDataBatch := []\<rparr>"
  have t: "tokens ?s' = tokens s"
    using tokens_untask[OF assms(2)] None by (simp add: tokens_def)
  have "page_inv cfg k ?s'"
    using assms(1) t concat_remove1_subset[of task_page "AwaitFlush None" "tasks s"]
    by (auto simp: page_inv_def)
  with None show ?thesis by (auto simp: resume_flush_def)
next
  case (Some np)
  obtain n pg where np: "np = (n, pg)" by (cases np) blast
  let ?s' = "s\<lparr>tasks := remove1 (AwaitFlush (Some (n, pg))) (tasks s), propertyDataBatch := []\<rparr>"
  have t: "tokens ?s' + {#n#} = tokens s"
    using tokens_untask[OF assms(2)] Some np by (simp add: tokens_def)
  from assms(1) t have "tokens ?s' + {#n#} \<subseteq># {#k#}" by (simp add: page_inv_def)
  note st = single_token[OF this]
  from st have nk: "n = k" by (rule conjunct1)
  from st have e: "tokens ?s' = {#}" by (rule conjunct2)
  from assms Some np have "n \<le> pagesProcessed s" by (force simp: page_inv_def)
  with assms(1) nk have pp: "pagesProcessed s = k" by (simp add: page_inv_def)
  have h: "holds_page cfg k ?s'"
    using assms(1) e pp by (simp add: page_inv_def holds_page_def)
  from paginate_page[OF h, of pg] nk show ?thesis by (simp add: resume_flush_def Some np)
qed

lemma take_request_page:
  assumes "page_inv cfg k s" and "r \<in> set (pending s)"
  shows "page_inv cfg k (take_request s r)"
proof -
  from tokens_take[OF assms(2)] have "tokens (take_request s r) \<subseteq># tokens s"
    by (metis mset_subset_eq_add_left)
  with assms(1) have "tokens (take_request s r) \<subseteq># {#k#}"
    by (auto simp: page_inv_def intro: subset_mset.order_trans)
  with assms(1) show ?thesis by (simp add: page_inv_def take_request_def)
qed

lemma crawl_step_page:
  assumes "crawl_step cfg s s'" and "page_inv cfg k s"
  shows "\<exists>k'. page_inv cfg k' s'"
  using assms(1)
proof (cases rule: crawl_step.cases)
  case (list_begin u n pg now)
  with list_handler_page[OF assms(2)] show ?thesis by simp
next
  case (detail_begin link b dpg)
  with detail_handler_page[OF assms(2)] show ?thesis by auto
next
  case (add_resumes rest n pg)
  with resume_add_page[OF assms(2)] show ?thesis by simp
next
  case (flush_resumes c)
  with resume_flush_page[OF assms(2)] show ?thesis by simp
next
  case (request_fails r)
  with take_request_page[OF assms(2)] show ?thesis by auto
qed

lemma reachable_page:
  assumes "reachable cfg searchUrl s" and "1 \<le> maxPages cfg"
  shows "\<exists>k. page_inv cfg k s"
  using assms(1)
proof (induction rule: reachable.induct)
  case start
  have "page_inv cfg 1 (initial_state searchUrl)"
    using assms(2) by (simp add: page_inv_def initial_state_def tokens_def)
  then show ?case by blast
next
  case (step s s')
  then show ?case using crawl_step_page by blast
qed

text \<open>
  Claim C3, as the code has it. With \<open>maxPages\<close> at least 1 (the clamping gives that),
  the search pages requested in a run are \<open>1, 2, ..., k\<close>, each once, with
  \<open>k < maxPages + 1\<close>. \<open>findNextPageUrl\<close> always gives a URL, and pagination requests
  the page after the current one exactly when the count of records is below
  \<open>maxResults\<close> and the highest page processed is below \<open>maxPages\<close>; the number of
  cards on the page plays no part.
\<close>

theorem pagination_bounded:
  assumes "reachable cfg searchUrl s" and "1 \<le> maxPages cfg"
  shows "(\<exists>k. list_pages (added s) = [1..<Suc k] \<and> 1 \<le> k \<and> of_nat k < maxPages cfg + 1 \<and>
              pagesProcessed s \<le> k) \<and>
         (\<exists>nextUrl. findNextPageUrl (lp_controls pg) (lp_url pg) (page_or n (pagesProcessed s)) = Some nextUrl \<and>
              url_truthy (Some nextUrl) \<and>
              paginate cfg s n pg =
                (if of_nat (counted cfg s) < maxResults cfg \<and> of_nat (pagesProcessed s) < maxPages cfg
                 then addRequests s (ListRequest nextUrl (page_or n (pagesProcessed s) + 1)) else s))"
proof
  from reachable_page[OF assms] obtain k where "page_inv cfg k s" by blast
  then show "\<exists>k. list_pages (added s) = [1..<Suc k] \<and> 1 \<le> k \<and> of_nat k < maxPages cfg + 1 \<and>
              pagesProcessed s \<le> k"
    by (auto simp: page_inv_def)
next
  obtain nextUrl where n: "findNextPageUrl (lp_controls pg) (lp_url pg) (page_or n (pagesProcessed s)) = Some nextUrl"
    using findNextPageUrl_Some by blast
  with findNextPageUrl_truthy[of "lp_controls pg" "lp_url pg" "page_or n (pagesProcessed s)"]
  have "url_truthy (Some nextUrl)" by simp
  with n paginate_eq[OF n, of cfg] 
  show "\<exists>nextUrl. findNextPageUrl (lp_controls pg) (lp_url pg) (page_or n (pagesProcessed s)) = Some nextUrl \<and>
              url_truthy (Some nextUrl) \<and>
              paginate cfg s n pg =
                (if of_nat (counted cfg s) < maxResults cfg \<and> of_nat (pagesProcessed s) < maxPages cfg
                 then addRequests s (ListRequest nextUrl (page_or n (pagesProcessed s) + 1)) else s)"
    by blast
qed

lemma fallback_first_page:
  "findNextPageUrl [] \<lparr>url_base = b, url_query = []\<rparr> (Suc 0) =
     Some (Rebuilt \<lparr>url_base = b, url_query = []\<rparr> (Some (Fin 2)) (Some (Fin 24)))"
  by (simp add: findNextPageUrl_def next_fallback_def parseInt10_def searchParams_get_def Let_def
        Math_max_def DEFAULT_PROPERTIES_PER_PAGE_def)

lemma after_empty_page_eval:
  "added after_empty_page =
     [ListRequest (Href example_search) 1,
      ListRequest (Rebuilt \<lparr>url_base = ''https://www.rightmove.co.uk/new-homes-for-sale/find.html'',
                            url_query = []\<rparr> (Some (Fin 2)) (Some (Fin 24))) 2]"
  "pagesProcessed after_empty_page = 1"
  by (simp_all add: after_empty_page_def list_handler_def take_request_def initial_state_def
        example_config_def empty_list_page_def counted_def queue_loop_def paginate_def page_or_def
        fallback_first_page addRequests_def Let_def)

theorem pagination_bounded_witness:
  "reachable example_config example_search after_empty_page \<and> 1 \<le> maxPages example_config \<and>
   list_pages (added after_empty_page) = [1..<Suc 2] \<and>
   (\<exists>k. list_pages (added after_empty_page) = [1..<Suc k] \<and> 1 \<le> k \<and>
        of_nat k < maxPages example_config + 1 \<and> pagesProcessed after_empty_page \<le> k) \<and>
   (\<exists>nextUrl. findNextPageUrl (lp_controls empty_list_page) (lp_url empty_list_page)
                 (page_or 2 (pagesProcessed after_empty_page)) = Some nextUrl \<and>
        url_truthy (Some nextUrl) \<and>
        paginate example_config after_empty_page 2 empty_list_page =
          (if of_nat (counted example_config after_empty_page) < maxResults example_config \<and>
              of_nat (pagesProcessed after_empty_page) < maxPages example_config
           then addRequests after_empty_page (ListRequest nextUrl (page_or 2 (pagesProcessed after_empty_page) + 1))
           else after_empty_page))"
proof -
  have r: "reachable example_config example_search after_empty_page"
    unfolding after_empty_page_def by (rule first_page_reachable)
  have m: "1 \<le> maxPages example_config" by (simp add: example_config_def)
  have l: "list_pages (added after_empty_page) = [1..<Suc 2]"
    by (simp add: after_empty_page_eval list_pages_def upt_rec)
  from pagination_bounded[OF r m, of empty_list_page 2] r m l show ?thesis by blast
qed

text \<open>Claim C3 as stated fails: after a first page without any card, the second page is
  requested.\<close>

theorem zero_cards_counterexample:
  "lp_cards empty_list_page = [] \<and>
   list_pages (added after_empty_page) = [1, 2] \<and>
   pagesProcessed after_empty_page = 1 \<and> maxPages example_config = 5"
  by (simp add: after_empty_page_eval list_pages_def empty_list_page_def example_config_def)

subsection \<open>The payload search\<close>

lemma reach_valid: "reach h a n b \<Longrightarrow> b < length h"
  by (cases n) simp_all

lemma reach_step:
  "reach h a n c \<Longrightarrow> Reference b \<in> set (children (h ! c)) \<Longrightarrow> b < length h \<Longrightarrow> reach h a (Suc n) b"
  using reach_valid[of h a n c] by (auto simp: list_ex_iff)

lemma reach_last:
  "reach h a (Suc n) b \<Longrightarrow> \<exists>c. reach h a n c \<and> Reference b \<in> set (children (h ! c)) \<and> b < length h"
  by (auto simp: list_ex_iff)

lemma sorted_new_level: "sorted (map (snd \<circ> (\<lambda>item. (item, k))) xs)"
  by (induction xs) auto

text \<open>Skipping a queue entry: a primitive, or an object already seen.\<close>

lemma skip_inv:
  assumes "bfs_inv h P m r V ((v, d) # q)"
    and "\<And>a. v = Reference a \<Longrightarrow> a < length h \<Longrightarrow> a \<in> fst ` set V"
  shows "bfs_inv h P m r V q"
proof -
  from assms(1) have vo: "visited_ok h P m r V" and qo: "queue_ok h m r ((v, d) # q)"
    and lv: "levels V ((v, d) # q)" and ex: "expanded h m V ((v, d) # q)"
    and ro: "root_ok r V ((v, d) # q)" and di: "distinct (map fst V)" and rv: "r < length h"
    by (simp_all add: bfs_inv_def)
  have below: "dw \<le> d" if "(w, dw) \<in> set V" for w dw
    using lv that by (force simp: levels_def sorted_append)
  have seen_before: "\<exists>dc \<le> d. (a, dc) \<in> set V" if "v = Reference a" "a < length h" for a
  proof -
    from assms(2)[OF that] obtain dc where "(a, dc) \<in> set V" by force
    with below[OF this] show ?thesis by blast
  qed
  have "queue_ok h m r q" using qo by (simp add: queue_ok_def)
  moreover have "levels V q" using lv by (auto simp: levels_def sorted_append)
  moreover have "expanded h m V q"
    unfolding expanded_def
  proof (intro ballI, clarify)
    fix w dw c
    assume w: "(w, dw) \<in> set V" "dw < m" "Reference c \<in> set (children (h ! w))" "c < length h"
      "(Reference c, dw + 1) \<notin> set q"
    from ex w have "(\<exists>dc \<le> dw + 1. (c, dc) \<in> set V) \<or> (Reference c, dw + 1) \<in> set ((v, d) # q)"
      by (fastforce simp: expanded_def)
    with w(5) have "(\<exists>dc \<le> dw + 1. (c, dc) \<in> set V) \<or> (v = Reference c \<and> d = dw + 1)" by auto
    with seen_before[of c] w(4) show "\<exists>dc \<le> dw + 1. (c, dc) \<in> set V" by auto
  qed
  moreover have "root_ok r V q"
  proof -
    from ro have "(r, 0) \<in> set V \<or> (Reference r, 0) \<in> set q \<or> (v = Reference r \<and> d = 0)"
      by (auto simp: root_ok_def)
    then show ?thesis using seen_before[of r] rv by (auto simp: root_ok_def)
  qed
  ultimately show ?thesis using vo di rv by (simp add: bfs_inv_def)
qed

text \<open>Visiting an object that fails the predicate: at the depth limit, and below it.\<close>

lemma visit_inv:
  assumes "bfs_inv h P m r V ((Reference a, d) # q)"
    and "a < length h" and "a \<notin> fst ` set V" and "\<not> P (h ! a)"
    and "q' = (if d \<ge> m then q else q @ map (\<lambda>item. (item, d + 1)) (children (h ! a)))"
  shows "bfs_inv h P m r (V @ [(a, d)]) q'"
proof -
  from assms(1) have vo: "visited_ok h P m r V" and qo: "queue_ok h m r ((Reference a, d) # q)"
    and lv: "levels V ((Reference a, d) # q)" and ex: "expanded h m V ((Reference a, d) # q)"
    and ro: "root_ok r V ((Reference a, d) # q)" and di: "distinct (map fst V)" and rv: "r < length h"
    by (simp_all add: bfs_inv_def)
  from qo assms(2) have dm: "d \<le> m" and ra: "reach h r d a" by (simp_all add: queue_ok_def)
  have below: "dw \<le> d" if "(w, dw) \<in> set V" for w dw
    using lv that by (force simp: levels_def sorted_append)
  have above: "d \<le> snd x \<and> snd x \<le> d + 1" if "x \<in> set q" for x
    using lv that by (force simp: levels_def sorted_append)
  have sq: "sorted (map snd q)" and sv: "sorted (map snd V)"
    using lv by (simp_all add: levels_def sorted_append)
  have q': "set q' \<subseteq> set q \<union> (\<lambda>item. (item, d + 1)) ` set (children (h ! a))"
    "set q \<subseteq> set q'" "d < m \<Longrightarrow> (\<lambda>item. (item, d + 1)) ` set (children (h ! a)) \<subseteq> set q'"
    using assms(5) by (auto split: if_splits)
  have "visited_ok h P m r (V @ [(a, d)])"
    using vo assms(2,4) dm ra by (simp add: visited_ok_def)
  moreover have "queue_ok h m r q'"
    unfolding queue_ok_def
  proof (intro ballI, clarify)
    fix v e assume ve: "(v, e) \<in> set q'"
    show "e \<le> m \<and> (\<forall>c. v = Reference c \<longrightarrow> c < length h \<longrightarrow> reach h r e c)"
    proof (cases "(v, e) \<in> set q")
      case True
      with qo show ?thesis by (fastforce simp: queue_ok_def)
    next
      case False
      with ve q'(1) have c: "v \<in> set (children (h ! a))" "e = d + 1" by auto
      from False ve assms(5) have "d < m" by (auto split: if_splits)
      with c reach_step[OF ra] show ?thesis by auto
    qed
  qed
  moreover have "levels (V @ [(a, d)]) q'"
  proof -
    have 1: "\<forall>x \<in> set q'. d \<le> snd x \<and> snd x \<le> d + 1" using above q'(1) by auto
    have "sorted (map snd q')" using sq above assms(5) by (auto simp: sorted_append sorted_new_level)
    moreover have "b \<le> snd y" if "(w, b) \<in> set V" "y \<in> set q'" for w b y
      using below[OF that(1)] 1 that(2) by fastforce
    ultimately have "sorted (map snd (V @ [(a, d)]) @ map snd q')"
      using sv below 1 by (auto simp: sorted_append)
    moreover have "snd x \<le> snd y + 1" if "x \<in> set q'" "y \<in> set q'" for x y
    proof -
      from 1 that have "d \<le> snd y" "snd x \<le> d + 1" by auto
      then show ?thesis by linarith
    qed
    ultimately show ?thesis by (simp add: levels_def)
  qed
  moreover have "expanded h m (V @ [(a, d)]) q'"
    unfolding expanded_def
  proof (intro ballI, clarify)
    fix w dw c
    assume w: "(w, dw) \<in> set (V @ [(a, d)])" "dw < m" "Reference c \<in> set (children (h ! w))"
      "c < length h" "(Reference c, dw + 1) \<notin> set q'"
    show "\<exists>dc \<le> dw + 1. (c, dc) \<in> set (V @ [(a, d)])"
    proof (cases "(w, dw) \<in> set V")
      case True
      with ex w have "(\<exists>dc \<le> dw + 1. (c, dc) \<in> set V) \<or> (Reference c, dw + 1) \<in> set ((Reference a, d) # q)"
        by (fastforce simp: expanded_def)
      with w(5) q'(2) have "(\<exists>dc \<le> dw + 1. (c, dc) \<in> set V) \<or> (c = a \<and> d = dw + 1)" by auto
      then show ?thesis by auto
    next
      case False
      with w have "w = a" "dw = d" by auto
      with w q'(3) show ?thesis by auto
    qed
  qed
  moreover have "root_ok r (V @ [(a, d)]) q'" using ro q'(2) by (auto simp: root_ok_def)
  moreover have "distinct (map fst (V @ [(a, d)]))" using di assms(3) by auto
  ultimately show ?thesis using rv by (simp add: bfs_inv_def)
qed

text \<open>What the invariant gives for the nodes nearer to the root than every queue entry.\<close>

lemma cover:
  assumes "bfs_inv h P m r V q" and "reach h r n b" and "n \<le> m" and "\<forall>x \<in> set q. n < snd x"
  shows "\<exists>db \<le> n. (b, db) \<in> set V"
  using assms(2-4)
proof (induction n arbitrary: b)
  case 0
  then have "b = r" by simp
  moreover from assms(1) have "root_ok r V q" by (simp add: bfs_inv_def)
  ultimately show ?case using 0 by (auto simp: root_ok_def)
next
  case (Suc n)
  from reach_last[OF Suc.prems(1)] obtain c where
    c: "reach h r n c" "Reference b \<in> set (children (h ! c))" "b < length h" by blast
  from Suc.prems have "n \<le> m" "\<forall>x \<in> set q. n < snd x" by auto
  from Suc.IH[OF c(1) this] obtain dc where dc: "dc \<le> n" "(c, dc) \<in> set V" by blast
  from assms(1) have "expanded h m V q" by (simp add: bfs_inv_def)
  with dc c Suc.prems(2)
  have "(\<exists>db \<le> dc + 1. (b, db) \<in> set V) \<or> (Reference b, dc + 1) \<in> set q"
    by (fastforce simp: expanded_def)
  moreover have "(Reference b, dc + 1) \<notin> set q" using Suc.prems(3) dc(1) by fastforce
  ultimately obtain db where db: "db \<le> dc + 1" "(b, db) \<in> set V" by blast
  with dc(1) have "db \<le> Suc n" by simp
  with db(2) show ?case by blast
qed

lemma bfs_loop_inv:
  assumes "bfs_inv h P m r V q" and "seen = fst ` set V" and "bfs_loop h P m q seen = (T, res)"
  shows "(res = None \<longrightarrow> bfs_inv h P m r (V @ T) []) \<and>
         (\<forall>a. res = Some a \<longrightarrow>
            (\<exists>T' d q'. T = T' @ [(a, d)] \<and> bfs_inv h P m r (V @ T') ((Reference a, d) # q') \<and>
                a < length h \<and> a \<notin> fst ` set (V @ T') \<and> P (h ! a)))"
  using assms
proof (induction h P m q seen arbitrary: V T rule: bfs_loop.induct)
  case (1 h P m seen)
  then show ?case by simp
next
  case (2 h P m t depth queue seen)
  from "2.prems"(1) have "bfs_inv h P m r V queue" by (rule skip_inv) simp
  moreover from "2.prems"(3) have "bfs_loop h P m queue seen = (T, res)" by simp
  ultimately show ?case using "2.IH" "2.prems"(2) by blast
next
  case (3 h P m a depth queue seen)
  show ?case
  proof (cases "a \<ge> length h \<or> a \<in> seen")
    case True
    from "3.prems"(1) have "bfs_inv h P m r V queue"
      by (rule skip_inv) (use True "3.prems"(2) in auto)
    moreover from "3.prems"(3) True have "bfs_loop h P m queue seen = (T, res)" by auto
    ultimately show ?thesis using "3.IH"(1)[OF True] "3.prems"(2) by blast
  next
    case new: False
    then have a: "a < length h" "a \<notin> fst ` set V" using "3.prems"(2) by auto
    show ?thesis
    proof (cases "P (h ! a)")
      case True
      with new "3.prems"(3) have "T = [] @ [(a, depth)]" "res = Some a" by auto
      with "3.prems"(1) a True show ?thesis by auto
    next
      case fails: False
      let ?q' = "if depth \<ge> m then queue
                 else queue @ map (\<lambda>item. (item, depth + 1)) (children (h ! a))"
      have inv': "bfs_inv h P m r (V @ [(a, depth)]) ?q'"
        by (rule visit_inv[OF "3.prems"(1) a fails]) simp
      have seen': "insert a seen = fst ` set (V @ [(a, depth)])" using "3.prems"(2) by auto
      obtain T1 where T1: "bfs_loop h P m ?q' (insert a seen) = (T1, res)" "T = (a, depth) # T1"
        using "3.prems"(3) new fails
        by (cases "bfs_loop h P m ?q' (insert a seen)") (auto simp: visit_def split: if_splits)
      have ih: "(res = None \<longrightarrow> bfs_inv h P m r ((V @ [(a, depth)]) @ T1) []) \<and>
         (\<forall>b. res = Some b \<longrightarrow>
            (\<exists>T' d q'. T1 = T' @ [(b, d)] \<and> bfs_inv h P m r ((V @ [(a, depth)]) @ T') ((Reference b, d) # q') \<and>
                b < length h \<and> b \<notin> fst ` set ((V @ [(a, depth)]) @ T') \<and> P (h ! b)))"
      proof (cases "depth \<ge> m")
        case True
        with inv' T1(1) "3.IH"(2)[OF new fails True _ seen'] show ?thesis by simp
      next
        case False
        with inv' T1(1) "3.IH"(3)[OF new fails False _ seen'] show ?thesis by simp
      qed
      show ?thesis
      proof (intro conjI allI impI)
        assume "res = None"
        with ih T1(2) show "bfs_inv h P m r (V @ T) []" by simp
      next
        fix b assume "res = Some b"
        with ih obtain T' d q' where t: "T1 = T' @ [(b, d)]"
          "bfs_inv h P m r ((V @ [(a, depth)]) @ T') ((Reference b, d) # q')"
          "b < length h" "b \<notin> fst ` set ((V @ [(a, depth)]) @ T')" "P (h ! b)" by blast
        have "T = ((a, depth) # T') @ [(b, d)]" using t(1) T1(2) by simp
        moreover have "bfs_inv h P m r (V @ ((a, depth) # T')) ((Reference b, d) # q')"
          using t(2) by simp
        moreover have "b \<notin> fst ` set (V @ ((a, depth) # T'))" using t(4) by simp
        ultimately show "\<exists>T' d q'. T = T' @ [(b, d)] \<and> bfs_inv h P m r (V @ T') ((Reference b, d) # q') \<and>
                b < length h \<and> b \<notin> fst ` set (V @ T') \<and> P (h ! b)"
          using t(3,5) by blast
      qed
    qed
  qed
qed

lemma bfs_inv_start: "r < length h \<Longrightarrow> bfs_inv h P m r [] [(Reference r, 0)]"
  by (simp add: bfs_inv_def visited_ok_def queue_ok_def levels_def expanded_def root_ok_def)

lemma reach_start: "reach h a n b \<Longrightarrow> a < length h"
  by (induction n arbitrary: b) (auto simp: list_ex_iff)

lemma search_outside:
  assumes "\<forall>r. rt = Reference r \<longrightarrow> r \<ge> length h"
  shows "search h rt P m = ([], None) \<and> \<not> reach_from h rt n b"
proof (cases rt)
  case (Primitive t)
  then show ?thesis by (simp add: search_def reach_from_def)
next
  case (Reference r)
  with assms have "r \<ge> length h" by simp
  with Reference reach_start[of h r n b] show ?thesis
    by (auto simp: search_def reach_from_def)
qed

lemma search_bfs:
  assumes "search h rt P m = (T, res)"
  shows "(\<forall>(b, e) \<in> set T. e \<le> m \<and> reach_from h rt e b) \<and>
         sorted (map snd T) \<and> distinct (map fst T) \<and>
         (res = None \<longrightarrow>
            (\<forall>(b, e) \<in> set T. \<not> P (h ! b)) \<and>
            (\<forall>b n. n \<le> m \<and> reach_from h rt n b \<longrightarrow> \<not> P (h ! b))) \<and>
         (\<forall>a. res = Some a \<longrightarrow>
            P (h ! a) \<and>
            (\<exists>T' d. T = T' @ [(a, d)] \<and> (\<forall>(b, e) \<in> set T'. \<not> P (h ! b)) \<and>
                (\<forall>b n. n < d \<and> reach_from h rt n b \<longrightarrow> \<not> P (h ! b))))"
proof (cases "\<forall>r. rt = Reference r \<longrightarrow> r \<ge> length h")
  case True
  from search_outside[OF True, of P m] assms have "T = []" "res = None" by simp_all
  with search_outside[OF True] show ?thesis by simp
next
  case False
  then obtain r where r: "rt = Reference r" "r < length h" by auto
  with assms have run: "bfs_loop h P m [(Reference r, 0)] {} = (T, res)" by (simp add: search_def)
  have rf: "reach_from h rt n b = reach h r n b" for n b by (simp add: reach_from_def r)
  have e: "{} = fst ` set ([] :: (nat \<times> nat) list)" by simp
  note fin = bfs_loop_inv[OF bfs_inv_start[OF r(2)] e run, simplified]
  show ?thesis
  proof (cases res)
    case None
    with fin have inv: "bfs_inv h P m r T []" by simp
    then have vo: "visited_ok h P m r T" and "levels T []" and di: "distinct (map fst T)"
      by (simp_all add: bfs_inv_def)
    then have so: "sorted (map snd T)" by (simp add: levels_def)
    have "\<not> P (h ! b)" if "n \<le> m" "reach h r n b" for b n
    proof -
      from cover[OF inv that(2,1)] obtain db where "(b, db) \<in> set T" by auto
      with vo show ?thesis by (auto simp: visited_ok_def)
    qed
    with vo so di None show ?thesis by (auto simp: visited_ok_def rf)
  next
    case (Some a)
    with fin obtain T' d q' where t: "T = T' @ [(a, d)]"
      "bfs_inv h P m r T' ((Reference a, d) # q')" "a < length h" "a \<notin> fst ` set T'" "P (h ! a)"
      by auto
    from t(2) have vo: "visited_ok h P m r T'" and qo: "queue_ok h m r ((Reference a, d) # q')"
      and lv: "levels T' ((Reference a, d) # q')" and di: "distinct (map fst T')"
      by (simp_all add: bfs_inv_def)
    from qo t(3) have d: "d \<le> m" "reach h r d a" by (simp_all add: queue_ok_def)
    from lv have so: "sorted (map snd T)" by (auto simp: levels_def t(1) sorted_append)
    from di t(4) have di': "distinct (map fst T)" by (simp add: t(1))
    have front: "\<forall>x \<in> set ((Reference a, d) # q'). n < snd x" if "n < d" for n
      using lv that by (auto simp: levels_def sorted_append)
    have near: "\<not> P (h ! b)" if "n < d" "reach h r n b" for b n
    proof -
      from that(1) d(1) have "n \<le> m" by simp
      from cover[OF t(2) that(2) this front[OF that(1)]] obtain db where "(b, db) \<in> set T'" by auto
      with vo show ?thesis by (auto simp: visited_ok_def)
    qed
    have "\<forall>(b, e) \<in> set T. e \<le> m \<and> reach_from h rt e b"
      using vo d by (auto simp: visited_ok_def t(1) rf)
    moreover have "\<forall>(b, e) \<in> set T'. \<not> P (h ! b)" using vo by (auto simp: visited_ok_def)
    ultimately show ?thesis using so di' Some t(1,5) near by (auto simp: rf)
  qed
qed

lemma visited_bound:
  assumes "distinct (map fst T)" and "\<forall>(b, e) \<in> set T. b < n"
  shows "length T \<le> n"
proof -
  have "length T = card (set (map fst T))" using assms(1) by (metis distinct_card length_map)
  also have "\<dots> \<le> card {..<n}" using assms(2) by (intro card_mono) auto
  finally show ?thesis by simp
qed

lemma reach_from_valid: "reach_from h rt n b \<Longrightarrow> b < length h"
  by (cases rt) (auto simp: reach_from_def dest: reach_valid)

lemma payload_shape:
  "isLikelyPropertyPayload nd =
     (\<exists>kvs. nd = ObjectNode kvs \<and>
        has_any [''displayAddress'', ''address'', ''propertyAddress'', ''addressSummary''] kvs \<and>
        (has_any [''bedrooms'', ''bedroomCount'', ''numBedrooms''] kvs \<or>
         has_any [''propertyType'', ''propertySubType'', ''propertyTypeFullDescription''] kvs \<or>
         has_any [''price'', ''displayPrice'', ''priceAmount''] kvs))"
  by (cases nd) (simp_all add: Let_def)

text \<open>
  Claim C9. The search of the payload locator, \<open>findNestedObject\<close> with the predicate
  \<open>isLikelyPropertyPayload\<close> and depth 6, on any heap, cyclic or not. It is a total function
  (the termination proof of \<open>bfs_loop\<close>) and visits every node at most once. Every visited
  node is at its depth from the root, at most 6, and the depths never decrease along the
  visits. It returns \<open>null\<close> exactly when no node within 6 references of the root has the
  shape. A node it returns is an object with an address-like key and a bedroom-count-like,
  property-type-like or price-like key; it is the last node visited, every node visited
  before it fails the predicate, and so does every node nearer to the root.
\<close>

theorem findNestedObject_bounded_bfs:
  "(\<forall>(b, e) \<in> set (visited h rt isLikelyPropertyPayload 6). e \<le> 6 \<and> reach_from h rt e b) \<and>
   sorted (map snd (visited h rt isLikelyPropertyPayload 6)) \<and>
   distinct (map fst (visited h rt isLikelyPropertyPayload 6)) \<and>
   length (visited h rt isLikelyPropertyPayload 6) \<le> length h \<and>
   ((findNestedObject h rt isLikelyPropertyPayload 6 = None) =
      (\<forall>b n. n \<le> 6 \<and> reach_from h rt n b \<longrightarrow> \<not> isLikelyPropertyPayload (h ! b))) \<and>
   (\<forall>a. findNestedObject h rt isLikelyPropertyPayload 6 = Some a \<longrightarrow>
      (\<exists>kvs. h ! a = ObjectNode kvs \<and>
         has_any [''displayAddress'', ''address'', ''propertyAddress'', ''addressSummary''] kvs \<and>
         (has_any [''bedrooms'', ''bedroomCount'', ''numBedrooms''] kvs \<or>
          has_any [''propertyType'', ''propertySubType'', ''propertyTypeFullDescription''] kvs \<or>
          has_any [''price'', ''displayPrice'', ''priceAmount''] kvs)) \<and>
      (\<exists>vs d. visited h rt isLikelyPropertyPayload 6 = vs @ [(a, d)] \<and>
         (\<forall>(b, e) \<in> set vs. \<not> isLikelyPropertyPayload (h ! b)) \<and>
         (\<forall>b n. n < d \<and> reach_from h rt n b \<longrightarrow> \<not> isLikelyPropertyPayload (h ! b))))"
proof -
  obtain T res where run: "search h rt isLikelyPropertyPayload 6 = (T, res)"
    by (cases "search h rt isLikelyPropertyPayload 6") blast
  then have v: "visited h rt isLikelyPropertyPayload 6 = T"
    and f: "findNestedObject h rt isLikelyPropertyPayload 6 = res"
    by (simp_all add: visited_def findNestedObject_def)
  note b = search_bfs[OF run]
  from b have 1: "\<forall>(b, e) \<in> set T. e \<le> 6 \<and> reach_from h rt e b" by blast
  from b have 2: "sorted (map snd T)" "distinct (map fst T)" by blast+
  from 1 have "\<forall>(b, e) \<in> set T. b < length h" by (auto dest: reach_from_valid)
  from visited_bound[OF 2(2) this] have 3: "length T \<le> length h" .
  from b have none: "res = None \<Longrightarrow> \<forall>b n. n \<le> 6 \<and> reach_from h rt n b \<longrightarrow> \<not> isLikelyPropertyPayload (h ! b)"
    by blast
  from b have some: "\<And>a. res = Some a \<Longrightarrow> isLikelyPropertyPayload (h ! a) \<and>
            (\<exists>T' d. T = T' @ [(a, d)] \<and> (\<forall>(b, e) \<in> set T'. \<not> isLikelyPropertyPayload (h ! b)) \<and>
                (\<forall>b n. n < d \<and> reach_from h rt n b \<longrightarrow> \<not> isLikelyPropertyPayload (h ! b)))"
    by blast
  have 4: "(res = None) = (\<forall>b n. n \<le> 6 \<and> reach_from h rt n b \<longrightarrow> \<not> isLikelyPropertyPayload (h ! b))"
  proof
    assume "res = None"
    then show "\<forall>b n. n \<le> 6 \<and> reach_from h rt n b \<longrightarrow> \<not> isLikelyPropertyPayload (h ! b)" by (rule none)
  next
    assume no: "\<forall>b n. n \<le> 6 \<and> reach_from h rt n b \<longrightarrow> \<not> isLikelyPropertyPayload (h ! b)"
    show "res = None"
    proof (cases res)
      case None
      then show ?thesis .
    next
      case (Some a)
      from some[OF Some] obtain T' d where "isLikelyPropertyPayload (h ! a)" "T = T' @ [(a, d)]" by blast
      moreover with 1 have "d \<le> 6 \<and> reach_from h rt d a" by auto
      ultimately show ?thesis using no by blast
    qed
  qed
  have 5: "\<forall>a. res = Some a \<longrightarrow>
      (\<exists>kvs. h ! a = ObjectNode kvs \<and>
         has_any [''displayAddress'', ''address'', ''propertyAddress'', ''addressSummary''] kvs \<and>
         (has_any [''bedrooms'', ''bedroomCount'', ''numBedrooms''] kvs \<or>
          has_any [''propertyType'', ''propertySubType'', ''propertyTypeFullDescription''] kvs \<or>
          has_any [''price'', ''displayPrice'', ''priceAmount''] kvs)) \<and>
      (\<exists>vs d. T = vs @ [(a, d)] \<and>
         (\<forall>(b, e) \<in> set vs. \<not> isLikelyPropertyPayload (h ! b)) \<and>
         (\<forall>b n. n < d \<and> reach_from h rt n b \<longrightarrow> \<not> isLikelyPropertyPayload (h ! b)))"
    using some payload_shape by blast
  from 1 2 3 4 5 show ?thesis unfolding v f by blast
qed

lemma cyclic_search:
  "search cyclic_heap (Reference 0) isLikelyPropertyPayload 6 =
     ([(0, 0), (1, 1), (3, 2), (2, 2)], Some 2)"
  by (simp add: search_def cyclic_heap_def visit_def has_any_def)

lemma deep_search:
  "search deep_heap (Reference 0) isLikelyPropertyPayload 6 =
     ([(0, 0), (1, 1), (2, 2), (3, 3), (4, 4), (5, 5), (6, 6)], None)"
  by (simp add: search_def deep_heap_def visit_def has_any_def)

lemma example_payloads:
  "isLikelyPropertyPayload (cyclic_heap ! 4)" "isLikelyPropertyPayload (deep_heap ! 7)"
  "reach_from cyclic_heap (Reference 0) 1 1"
  by (simp_all add: cyclic_heap_def deep_heap_def has_any_def reach_from_def)

theorem findNestedObject_bounded_bfs_witness:
  "findNestedObject cyclic_heap (Reference 0) isLikelyPropertyPayload 6 = Some 2 \<and>
   visited cyclic_heap (Reference 0) isLikelyPropertyPayload 6 = [(0, 0), (1, 1), (3, 2), (2, 2)] \<and>
   isLikelyPropertyPayload (cyclic_heap ! 4) \<and>
   reach_from cyclic_heap (Reference 0) 1 1 \<and> \<not> isLikelyPropertyPayload (cyclic_heap ! 1) \<and>
   findNestedObject deep_heap (Reference 0) isLikelyPropertyPayload 6 = None \<and>
   length (visited deep_heap (Reference 0) isLikelyPropertyPayload 6) \<le> length deep_heap \<and>
   isLikelyPropertyPayload (deep_heap ! 7)"
proof -
  have c: "findNestedObject cyclic_heap (Reference 0) isLikelyPropertyPayload 6 = Some 2"
    "visited cyclic_heap (Reference 0) isLikelyPropertyPayload 6 = [(0, 0), (1, 1), (3, 2), (2, 2)]"
    by (simp_all add: findNestedObject_def visited_def cyclic_search)
  have d: "findNestedObject deep_heap (Reference 0) isLikelyPropertyPayload 6 = None"
    by (simp add: findNestedObject_def deep_search)
  note t = findNestedObject_bounded_bfs[of cyclic_heap "Reference 0"]
  from t c obtain vs d where vs: "[(0, 0), (1, 1), (3, 2), (2, 2)] = vs @ [(2 :: nat, d :: nat)]"
    "\<forall>b n. n < d \<and> reach_from cyclic_heap (Reference 0) n b \<longrightarrow> \<not> isLikelyPropertyPayload (cyclic_heap ! b)"
    by auto
  from vs(1) have "d = 2" by (cases vs rule: rev_cases) auto
  then have "1 < d" by simp
  with vs(2) example_payloads(3) have n1: "\<not> isLikelyPropertyPayload (cyclic_heap ! 1)" by blast
  from findNestedObject_bounded_bfs[of deep_heap "Reference 0"]
  have "length (visited deep_heap (Reference 0) isLikelyPropertyPayload 6) \<le> length deep_heap" by blast
  with c d n1 example_payloads show ?thesis by simp
qed


end
